theory Spec2Isabelle
  imports Main "HOL-Library.AList"
begin

section \<open>Data model: dictionaries on a heap\<close>

text \<open>
  \<^verbatim>\<open>merge_dicts\<close> mutates its first argument in place and stores references to
  dictionaries of its second argument, so dictionaries are objects on a heap: a heap is a
  list of dictionaries, an address is an index into it, and allocating a new dictionary
  appends to the list. A dictionary is an association list with distinct keys, in
  iteration order. A value stored under a key is either a reference to a dictionary
  (\<open>isinstance(v, dict)\<close> holds) or a leaf: any other payload, which the code only ever
  compares with \<open>==\<close> and stores.
\<close>

type_synonym addr = nat
type_synonym key = string

datatype 'v val = Leaf 'v | Ref addr

type_synonym 'v dict = "(key \<times> 'v val) list"
type_synonym 'v heap = "'v dict list"

datatype exc = LookupError string | KeyError key | AttributeError

text \<open>\<open>a[key]\<close> as a read, and \<open>a[key] = v\<close>: an existing key keeps its place, a new key
  goes to the end.\<close>

definition getitem :: "'v heap \<Rightarrow> addr \<Rightarrow> key \<Rightarrow> 'v val option" where
  "getitem h a k = map_of (h ! a) k"

definition setitem :: "'v heap \<Rightarrow> addr \<Rightarrow> key \<Rightarrow> 'v val \<Rightarrow> 'v heap" where
  "setitem h a k v = h[a := AList.update k v (h ! a)]"

text \<open>
  \<open>a[key] == b[key]\<close>, reached only when the two values are not both dictionaries. On
  two leaves it is the host language's equality \<open>leaf_eq\<close>, a parameter of the model
  (it need not be reflexive, and it may identify different payloads); a dictionary is
  never equal to a value that is not one.
\<close>

fun py_eq :: "('v \<Rightarrow> 'v \<Rightarrow> bool) \<Rightarrow> 'v val \<Rightarrow> 'v val \<Rightarrow> bool" where
  "py_eq leaf_eq (Leaf x) (Leaf y) = leaf_eq x y"
| "py_eq leaf_eq (Leaf x) (Ref q) = False"
| "py_eq leaf_eq (Ref p) (Leaf y) = False"
| "py_eq leaf_eq (Ref p) (Ref q) = (p = q)"

text \<open>\<open>'.'.join(path)\<close> and the message of the exception.\<close>

fun join :: "string \<Rightarrow> string list \<Rightarrow> string" where
  "join sep [] = []"
| "join sep [x] = x"
| "join sep (x # y # ys) = x @ sep @ join sep (y # ys)"

definition conflict_msg :: "string list \<Rightarrow> string" where
  "conflict_msg p = ''Conflict at '' @ [CHR 0x27] @ join ''.'' p @ [CHR 0x27]"

section \<open>\<open>copy.deepcopy\<close> on a dictionary\<close>

text \<open>
  The library call \<open>copy.deepcopy(b[key])\<close>, made only on dictionaries: a new dictionary
  is allocated, and every item of the original is stored in it under the same key, a
  dictionary value being copied in the same way first and a leaf being kept. The
  natural number \<open>fuel\<close> bounds the nesting of calls; \<open>None\<close> is a computation that
  exceeds it (as a copy of a cyclic structure without the library's memo table would).
  The memo table of the library is left out: it is consulted only for an object met
  twice, and the theorems below are about trees, where no dictionary is met twice.
\<close>

fun copy_items :: "nat \<Rightarrow> 'v dict \<Rightarrow> 'v heap \<Rightarrow> addr \<Rightarrow> 'v heap option" where
  "copy_items fuel [] h y = Some h"
| "copy_items fuel ((k, Leaf x) # kvs) h y = copy_items fuel kvs (setitem h y k (Leaf x)) y"
| "copy_items fuel ((k, Ref p) # kvs) h y =
     (case fuel of
        0 \<Rightarrow> None
      | Suc n \<Rightarrow>
          (if p < length h then
             (case copy_items n (h ! p) (h @ [[]]) (length h) of
                None \<Rightarrow> None
              | Some h' \<Rightarrow> copy_items fuel kvs (setitem h' y k (Ref (length h))) y)
           else None))"

definition deepcopy :: "nat \<Rightarrow> 'v heap \<Rightarrow> addr \<Rightarrow> ('v heap \<times> addr) option" where
  "deepcopy fuel h p =
     (case fuel of
        0 \<Rightarrow> None
      | Suc n \<Rightarrow>
          (if p < length h then
             map_option (\<lambda>h'. (h', length h)) (copy_items n (h ! p) (h @ [[]]) (length h))
           else None))"

section \<open>\<open>merge_dicts\<close>\<close>

text \<open>
  \<open>merge_keys\<close> is the loop \<open>for key in b\<close> of \<open>merge_dicts\<close> over the keys that are
  left, with the recursive call of \<open>merge_dicts\<close> on two dictionaries written out in
  it. The state is the heap; the result is the heap at the end together with either
  the exception raised or the address returned (\<open>return a\<close>). A raise ends the loop and
  keeps the heap as it is at that moment. \<open>fuel\<close> bounds the nesting of calls, with
  \<open>None\<close> for a computation that exceeds it.
\<close>

fun merge_keys ::
  "('v \<Rightarrow> 'v \<Rightarrow> bool) \<Rightarrow> nat \<Rightarrow> key list \<Rightarrow> 'v heap \<Rightarrow> addr \<Rightarrow> addr \<Rightarrow> bool \<Rightarrow> string list
     \<Rightarrow> ((exc + addr) \<times> 'v heap) option" where
  "merge_keys leaf_eq fuel [] h a b raise_conflicts path = Some (Inr a, h)"
| "merge_keys leaf_eq fuel (key # keys) h a b raise_conflicts path =
     (case map_of (h ! b) key of
        None \<Rightarrow> Some (Inl (KeyError key), h)
      | Some bv \<Rightarrow>
          (case map_of (h ! a) key of
             Some av \<Rightarrow>
               (case (av, bv) of
                  (Ref a', Ref b') \<Rightarrow>
                    (case fuel of
                       0 \<Rightarrow> None
                     | Suc n \<Rightarrow>
                         (if a' < length h \<and> b' < length h then
                            (case merge_keys leaf_eq n (map fst (h ! b')) h a' b'
                                    raise_conflicts (path @ [key]) of
                               None \<Rightarrow> None
                             | Some (Inl e, h') \<Rightarrow> Some (Inl e, h')
                             | Some (Inr r, h') \<Rightarrow>
                                 merge_keys leaf_eq fuel keys h' a b raise_conflicts path)
                          else None))
                | _ \<Rightarrow>
                    if py_eq leaf_eq av bv then
                      merge_keys leaf_eq fuel keys h a b raise_conflicts path
                    else if raise_conflicts then
                      Some (Inl (LookupError (conflict_msg (path @ [key]))), h)
                    else merge_keys leaf_eq fuel keys (setitem h a key bv) a b raise_conflicts path)
           | None \<Rightarrow>
               (case bv of
                  Ref b' \<Rightarrow>
                    (case deepcopy fuel h b' of
                       None \<Rightarrow> None
                     | Some (h', c) \<Rightarrow>
                         merge_keys leaf_eq fuel keys (setitem h' a key (Ref c)) a b
                           raise_conflicts path)
                | Leaf x \<Rightarrow>
                    merge_keys leaf_eq fuel keys (setitem h a key bv) a b raise_conflicts path)))"

definition merge_dicts ::
  "('v \<Rightarrow> 'v \<Rightarrow> bool) \<Rightarrow> nat \<Rightarrow> 'v heap \<Rightarrow> addr \<Rightarrow> addr \<Rightarrow> bool \<Rightarrow> string list
     \<Rightarrow> ((exc + addr) \<times> 'v heap) option" where
  "merge_dicts leaf_eq fuel h a b raise_conflicts path =
     (case fuel of
        0 \<Rightarrow> None
      | Suc n \<Rightarrow>
          (if a < length h \<and> b < length h then
             merge_keys leaf_eq n (map fst (h ! b)) h a b raise_conflicts path
           else None))"

section \<open>\<open>format_instance_name\<close>\<close>

text \<open>
  The values of an instance record: the record is a dictionary from field names to
  values, its \<open>options\<close> field holds a dictionary again.
\<close>

datatype pyval =
    PNone
  | PBool bool
  | PInt int
  | PStr string
  | PList "pyval list"
  | PDict "(string \<times> pyval) list"

type_synonym instance_rec = "(string \<times> pyval) list"

text \<open>Truth value testing, as \<open>if x:\<close> does it.\<close>

fun truthy :: "pyval \<Rightarrow> bool" where
  "truthy PNone = False"
| "truthy (PBool b) = b"
| "truthy (PInt i) = (i \<noteq> 0)"
| "truthy (PStr s) = (s \<noteq> [])"
| "truthy (PList xs) = (xs \<noteq> [])"
| "truthy (PDict kvs) = (kvs \<noteq> [])"

text \<open>The search loop: \<open>instance['name']\<close> raises \<open>KeyError\<close> on a record without the
  field; the first record whose name is equal ends the loop.\<close>

fun find_instance :: "string \<Rightarrow> instance_rec list \<Rightarrow> exc + instance_rec option" where
  "find_instance name [] = Inr None"
| "find_instance name (i # instances) =
     (case map_of i ''name'' of
        None \<Rightarrow> Inl (KeyError ''name'')
      | Some v \<Rightarrow> if v = PStr name then Inr (Some i) else find_instance name instances)"

text \<open>\<open>d.get(k)\<close>: \<open>None\<close> for a missing key.\<close>

definition dict_get :: "(string \<times> pyval) list \<Rightarrow> string \<Rightarrow> pyval" where
  "dict_get d k = (case map_of d k of None \<Rightarrow> PNone | Some v \<Rightarrow> v)"

definition format_instance_name :: "string \<Rightarrow> string \<Rightarrow> instance_rec list \<Rightarrow> exc + string option" where
  "format_instance_name name platform instances =
     (case find_instance name instances of
        Inl e \<Rightarrow> Inl e
      | Inr None \<Rightarrow> Inr None
      | Inr (Some working_instance) \<Rightarrow>
          (case dict_get working_instance ''options'' of
             PNone \<Rightarrow> Inr (Some name)
           | PDict options \<Rightarrow>
               if truthy (dict_get options ''append_platform_to_hostname'')
               then Inr (Some (name @ ''-'' @ platform))
               else Inr (Some name)
           | _ \<Rightarrow> Inl AttributeError))"

text \<open>Every record carries a \<open>name\<close> field; the \<open>options\<close> of a record, when it declares
  any, are a dictionary.\<close>

definition has_name :: "instance_rec \<Rightarrow> bool" where
  "has_name i = (map_of i ''name'' \<noteq> None)"

definition options_ok :: "instance_rec \<Rightarrow> bool" where
  "options_ok i = (case dict_get i ''options'' of PNone \<Rightarrow> True | PDict d \<Rightarrow> True | _ \<Rightarrow> False)"

definition declares_no_options :: "instance_rec \<Rightarrow> bool" where
  "declares_no_options i = (dict_get i ''options'' = PNone)"

definition appends_platform :: "instance_rec \<Rightarrow> bool" where
  "appends_platform i =
     (case dict_get i ''options'' of
        PDict options \<Rightarrow> truthy (dict_get options ''append_platform_to_hostname'')
      | _ \<Rightarrow> False)"

definition name_is :: "string \<Rightarrow> instance_rec \<Rightarrow> bool" where
  "name_is name i = (map_of i ''name'' = Some (PStr name))"

section \<open>Configuration trees laid out on the heap\<close>

text \<open>
  The theorems are about heaps that hold two configuration trees. A \<open>tree\<close> describes
  one: a leaf, or a dictionary together with the address where it lives and the trees
  under its keys, in iteration order. \<open>repr h t\<close> says that the heap \<open>h\<close> holds \<open>t\<close>: at
  every address of \<open>t\<close> the heap has the dictionary that \<open>t\<close> gives, with distinct keys.
  A tree is finite, so the part of the heap it describes has no cycle. \<open>addrs t\<close> lists
  the addresses of its dictionaries; when the list is distinct, no dictionary occurs
  twice in the tree. \<open>depth t\<close> is the nesting of dictionaries, and \<open>shape_of t\<close> forgets
  the addresses: two values with the same shape are equal as nested key/value data.
\<close>

datatype 'v tree = TLeaf 'v | TDict addr "(key \<times> 'v tree) list"

fun root :: "'v tree \<Rightarrow> 'v val" where
  "root (TLeaf x) = Leaf x"
| "root (TDict p kts) = Ref p"

fun is_dict :: "'v tree \<Rightarrow> bool" where
  "is_dict (TLeaf x) = False"
| "is_dict (TDict p kts) = True"

fun children :: "'v tree \<Rightarrow> (key \<times> 'v tree) list" where
  "children (TLeaf x) = []"
| "children (TDict p kts) = kts"

definition entries :: "(key \<times> 'v tree) list \<Rightarrow> 'v dict" where
  "entries kts = map (\<lambda>kt. (fst kt, root (snd kt))) kts"

fun addrs :: "'v tree \<Rightarrow> addr list" where
  "addrs (TLeaf x) = []"
| "addrs (TDict p kts) = p # concat (map (\<lambda>kt. addrs (snd kt)) kts)"

definition addrs_items :: "(key \<times> 'v tree) list \<Rightarrow> addr list" where
  "addrs_items kts = concat (map (\<lambda>kt. addrs (snd kt)) kts)"

fun repr :: "'v heap \<Rightarrow> 'v tree \<Rightarrow> bool" where
  "repr h (TLeaf x) = True"
| "repr h (TDict p kts) =
     (p < length h \<and> h ! p = entries kts \<and> distinct (map fst kts) \<and> (\<forall>kt\<in>set kts. repr h (snd kt)))"

definition repr_items :: "'v heap \<Rightarrow> (key \<times> 'v tree) list \<Rightarrow> bool" where
  "repr_items h kts = (\<forall>kt\<in>set kts. repr h (snd kt))"

fun depth :: "'v tree \<Rightarrow> nat" where
  "depth (TLeaf x) = 0"
| "depth (TDict p kts) = Suc (foldr max (map (\<lambda>kt. depth (snd kt)) kts) 0)"

definition depth_items :: "(key \<times> 'v tree) list \<Rightarrow> nat" where
  "depth_items kts = foldr max (map (\<lambda>kt. depth (snd kt)) kts) 0"

datatype 'v shape = SLeaf 'v | SDict "(key \<times> 'v shape) list"

fun shape_of :: "'v tree \<Rightarrow> 'v shape" where
  "shape_of (TLeaf x) = SLeaf x"
| "shape_of (TDict p kts) = SDict (map (\<lambda>kt. (fst kt, shape_of (snd kt))) kts)"

text \<open>
  The hypothesis of the theorems on \<open>merge_dicts\<close>: the heap holds the target \<open>ta\<close> and
  the source \<open>tb\<close>, and no dictionary occurs twice in them, neither inside one tree nor
  in both.
\<close>

definition disjoint_trees :: "'v heap \<Rightarrow> 'v tree \<Rightarrow> 'v tree \<Rightarrow> bool" where
  "disjoint_trees h ta tb \<longleftrightarrow> repr h ta \<and> repr h tb \<and> distinct (addrs ta @ addrs tb)"

text \<open>
  A conflict of the target's items \<open>kas\<close> with the source's items \<open>kbs\<close> at the key path
  \<open>p\<close>: every key of the path but the last is in both trees with a dictionary on each
  side, and the last key is in both trees with two values that are not both
  dictionaries and not equal.
\<close>

fun conflict_at ::
  "('v \<Rightarrow> 'v \<Rightarrow> bool) \<Rightarrow> (key \<times> 'v tree) list \<Rightarrow> (key \<times> 'v tree) list \<Rightarrow> key list \<Rightarrow> bool" where
  "conflict_at le kas kbs [] = False"
| "conflict_at le kas kbs (k # p) =
     (case map_of kas k of
        None \<Rightarrow> False
      | Some ta \<Rightarrow>
          (case map_of kbs k of
             None \<Rightarrow> False
           | Some tb \<Rightarrow>
               if is_dict ta \<and> is_dict tb then conflict_at le (children ta) (children tb) p
               else p = [] \<and> \<not> py_eq le (root ta) (root tb)))"

text \<open>
  The items \<open>kbs\<close> of a source are absorbed in the items \<open>kas\<close> of a target when
  merging them again would store nothing new: every key of the source is in the
  target, with a dictionary on both sides that absorbs in turn, or with the same leaf,
  or with two leaves that are equal.
\<close>

function absorbed ::
  "('v \<Rightarrow> 'v \<Rightarrow> bool) \<Rightarrow> (key \<times> 'v tree) list \<Rightarrow> (key \<times> 'v tree) list \<Rightarrow> bool" where
  "absorbed le kas [] = True"
| "absorbed le kas ((k, TLeaf y) # kbs) =
     ((case map_of kas k of
         None \<Rightarrow> False
       | Some ta \<Rightarrow> root ta = Leaf y \<or> py_eq le (root ta) (Leaf y))
      \<and> absorbed le kas kbs)"
| "absorbed le kas ((k, TDict b' bs) # kbs) =
     ((case map_of kas k of
         None \<Rightarrow> False
       | Some (TLeaf x) \<Rightarrow> False
       | Some (TDict a' as) \<Rightarrow> absorbed le as bs)
      \<and> absorbed le kas kbs)"
  by pat_completeness auto
termination
  by (relation "measure (\<lambda>(le, kas, kbs). size_list (size_prod (\<lambda>_. 0) size) kbs)") auto

section \<open>The merge on trees\<close>

text \<open>
  What \<open>copy.deepcopy\<close> and the loop of \<open>merge_dicts\<close> do, told on trees: the functions
  below follow \<open>copy_items\<close> and \<open>merge_keys\<close> case by case and return the tree that
  the heap holds afterwards, with \<open>n\<close> the next free address. They are the means of
  the proofs: the simulation lemmas \<open>copy_items_sim\<close> and \<open>merge_keys_sim\<close> show that
  the heap functions compute what they describe.
\<close>

function copy_tree_items :: "nat \<Rightarrow> (key \<times> 'v tree) list \<Rightarrow> (key \<times> 'v tree) list \<times> nat" where
  "copy_tree_items n [] = ([], n)"
| "copy_tree_items n ((k, TLeaf x) # kts) =
     (case copy_tree_items n kts of (r, m) \<Rightarrow> ((k, TLeaf x) # r, m))"
| "copy_tree_items n ((k, TDict p cs) # kts) =
     (case copy_tree_items (Suc n) cs of
        (cs', n1) \<Rightarrow> (case copy_tree_items n1 kts of (r, n2) \<Rightarrow> ((k, TDict n cs') # r, n2)))"
  by pat_completeness auto
termination
  by (relation "measure (\<lambda>(n, kts). size_list (size_prod (\<lambda>_. 0) size) kts)") auto

definition copy_tree :: "nat \<Rightarrow> 'v tree \<Rightarrow> 'v tree \<times> nat" where
  "copy_tree n t =
     (case t of
        TLeaf x \<Rightarrow> (TLeaf x, n)
      | TDict p cs \<Rightarrow> (case copy_tree_items (Suc n) cs of (cs', n') \<Rightarrow> (TDict n cs', n')))"

function merge_items ::
  "('v \<Rightarrow> 'v \<Rightarrow> bool) \<Rightarrow> bool \<Rightarrow> string list \<Rightarrow> nat \<Rightarrow> (key \<times> 'v tree) list \<Rightarrow> (key \<times> 'v tree) list
     \<Rightarrow> (exc + unit) \<times> (key \<times> 'v tree) list \<times> nat" where
  "merge_items leaf_eq rc path n kas [] = (Inr (), kas, n)"
| "merge_items leaf_eq rc path n kas ((k, TLeaf y) # kbs) =
     (case map_of kas k of
        None \<Rightarrow> merge_items leaf_eq rc path n (AList.update k (TLeaf y) kas) kbs
      | Some ta \<Rightarrow>
          if py_eq leaf_eq (root ta) (Leaf y) then merge_items leaf_eq rc path n kas kbs
          else if rc then (Inl (LookupError (conflict_msg (path @ [k]))), kas, n)
          else merge_items leaf_eq rc path n (AList.update k (TLeaf y) kas) kbs)"
| "merge_items leaf_eq rc path n kas ((k, TDict b' bs) # kbs) =
     (case map_of kas k of
        None \<Rightarrow>
          (case copy_tree_items (Suc n) bs of
             (cs, n') \<Rightarrow> merge_items leaf_eq rc path n' (AList.update k (TDict n cs) kas) kbs)
      | Some (TLeaf x) \<Rightarrow>
          if rc then (Inl (LookupError (conflict_msg (path @ [k]))), kas, n)
          else merge_items leaf_eq rc path n (AList.update k (TDict b' bs) kas) kbs
      | Some (TDict a' as) \<Rightarrow>
          (case merge_items leaf_eq rc (path @ [k]) n as bs of
             (Inl e, as', n') \<Rightarrow> (Inl e, AList.update k (TDict a' as') kas, n')
           | (Inr u, as', n') \<Rightarrow>
               merge_items leaf_eq rc path n' (AList.update k (TDict a' as') kas) kbs))"
  by pat_completeness auto
termination
  by (relation "measure (\<lambda>(le, rc, path, n, kas, kbs). size_list (size_prod (\<lambda>_. 0) size) kbs)") auto

text \<open>
  The invariant of the loop and what it establishes. Before: the heap holds the items
  \<open>kas\<close> of the target at \<open>a\<close> and the items \<open>kbs\<close> of the source that are still to be
  merged, no dictionary occurs twice, and the fuel covers the depth of the source.
  After: the heap holds the new items \<open>kas'\<close> of the target, and outside of \<open>a\<close>, of
  the subtrees of the target under keys of the source (\<open>touched\<close>) and of new
  addresses it is unchanged.
\<close>

definition touched :: "(key \<times> 'v tree) list \<Rightarrow> (key \<times> 'v tree) list \<Rightarrow> addr list" where
  "touched kas kbs = addrs_items (filter (\<lambda>kt. fst kt \<in> fst ` set kbs) kas)"

definition merge_pre ::
  "'v heap \<Rightarrow> addr \<Rightarrow> addr \<Rightarrow> nat \<Rightarrow> (key \<times> 'v tree) list \<Rightarrow> (key \<times> 'v tree) list \<Rightarrow> bool" where
  "merge_pre h a b fuel kas kbs \<longleftrightarrow>
     a < length h \<and> b < length h \<and> h ! a = entries kas \<and> distinct (map fst kas) \<and> repr_items h kas
     \<and> (\<forall>kt\<in>set kbs. map_of (h ! b) (fst kt) = Some (root (snd kt)))
     \<and> repr_items h kbs \<and> distinct (map fst kbs)
     \<and> distinct (a # addrs_items kas @ b # addrs_items kbs)
     \<and> depth_items kbs \<le> fuel"

definition merge_post ::
  "'v heap \<Rightarrow> addr \<Rightarrow> (key \<times> 'v tree) list \<Rightarrow> (key \<times> 'v tree) list \<Rightarrow> 'v heap \<Rightarrow> (key \<times> 'v tree) list \<Rightarrow> bool" where
  "merge_post h a kas kbs h' kas' \<longleftrightarrow>
     length h \<le> length h' \<and> h' ! a = entries kas' \<and> distinct (map fst kas') \<and> repr_items h' kas'
     \<and> (\<forall>p<length h. p \<noteq> a \<longrightarrow> p \<notin> set (touched kas kbs) \<longrightarrow> h' ! p = h ! p)
     \<and> distinct (addrs_items kas')
     \<and> set (addrs_items kas') \<subseteq> set (addrs_items kas) \<union> set (addrs_items kbs) \<union> {length h..<length h'}"

section \<open>Where a raising merge stops\<close>

text \<open>
  What the heap looks like after a merge that raised at the key path \<open>k # p\<close>, told
  against the initial heap \<open>h\<close> and the two trees it held. In the target dictionary
  at \<open>a\<close> the entry for \<open>k\<close> is the one of \<open>h\<close>; so is the entry for every key that
  the source lists after \<open>k\<close>, and every dictionary of the target below such a key has
  the content it had. If \<open>p\<close> goes on, the same holds one level down, in the dictionary
  that the target has under \<open>k\<close>; if \<open>p\<close> ends, \<open>k\<close> is the conflicting key and every
  dictionary of the target below it has the content it had.
\<close>

fun stopped_at ::
  "'v heap \<Rightarrow> 'v heap \<Rightarrow> addr \<Rightarrow> (key \<times> 'v tree) list \<Rightarrow> (key \<times> 'v tree) list \<Rightarrow> key list \<Rightarrow> bool" where
  "stopped_at h h' a kas kbs [] = False"
| "stopped_at h h' a kas kbs (k # p) =
     (getitem h' a k = getitem h a k
      \<and> (\<forall>k'\<in>set (tl (dropWhile (\<lambda>x. x \<noteq> k) (map fst kbs))).
            getitem h' a k' = getitem h a k'
            \<and> (case map_of kas k' of None \<Rightarrow> True | Some t \<Rightarrow> \<forall>q\<in>set (addrs t). h' ! q = h ! q))
      \<and> (case map_of kas k of
           None \<Rightarrow> False
         | Some ta \<Rightarrow>
             (case map_of kbs k of
                None \<Rightarrow> False
              | Some tb \<Rightarrow>
                  (case ta of
                     TLeaf x \<Rightarrow> p = []
                   | TDict a' as \<Rightarrow>
                       (case tb of
                          TLeaf y \<Rightarrow> p = [] \<and> (\<forall>q\<in>set (addrs ta). h' ! q = h ! q)
                        | TDict b' bs \<Rightarrow> stopped_at h h' a' as bs p)))))"

text \<open>
  The heap that is left when the loop of \<open>merge_dicts\<close> has run, in each dictionary
  along the key path, over the keys of the source that come before the key on the
  path, and over nothing else: \<open>takeWhile\<close> cuts the keys of the source at the key on the
  path, \<open>merge_keys\<close> is run on them with \<open>raise_conflicts\<close> and must return, and
  the next level starts from the heap it leaves, in the two dictionaries found under the
  key. The fuel is counted as \<open>merge_dicts\<close> counts it.
\<close>

fun merged_before ::
  "('v \<Rightarrow> 'v \<Rightarrow> bool) \<Rightarrow> nat \<Rightarrow> 'v heap \<Rightarrow> addr \<Rightarrow> addr \<Rightarrow> string list \<Rightarrow> key list \<Rightarrow> 'v heap option" where
  "merged_before le fuel h a b path [] = None"
| "merged_before le fuel h a b path (k # p) =
     (case fuel of
        0 \<Rightarrow> None
      | Suc n \<Rightarrow>
          (case merge_keys le n (takeWhile (\<lambda>x. x \<noteq> k) (map fst (h ! b))) h a b True path of
             Some (Inr r, h1) \<Rightarrow>
               if p = [] then Some h1
               else (case getitem h1 a k of
                       Some (Ref a') \<Rightarrow>
                         (case getitem h1 b k of
                            Some (Ref b') \<Rightarrow> merged_before le n h1 a' b' (path @ [k]) p
                          | _ \<Rightarrow> None)
                     | _ \<Rightarrow> None)
           | _ \<Rightarrow> None))"

section \<open>Theorems\<close>

subsection \<open>Trees on the heap: basic facts\<close>

lemma length_setitem [simp]: "length (setitem h a k v) = length h"
  by (simp add: setitem_def)

lemma nth_setitem_same: "a < length h \<Longrightarrow> setitem h a k v ! a = AList.update k v (h ! a)"
  by (simp add: setitem_def)

lemma nth_setitem_other: "p \<noteq> a \<Longrightarrow> setitem h a k v ! p = h ! p"
  by (simp add: setitem_def)

lemma update_fresh: "k \<notin> fst ` set al \<Longrightarrow> AList.update k v al = al @ [(k, v)]"
  by (induction al) auto

lemma addrs_items_Nil [simp]: "addrs_items [] = []"
  by (simp add: addrs_items_def)

lemma addrs_items_Cons [simp]: "addrs_items (kt # kts) = addrs (snd kt) @ addrs_items kts"
  by (simp add: addrs_items_def)

lemma addrs_items_append [simp]: "addrs_items (xs @ ys) = addrs_items xs @ addrs_items ys"
  by (simp add: addrs_items_def)

lemma addrs_TDict [simp]: "addrs (TDict p kts) = p # addrs_items kts"
  by (simp add: addrs_items_def)

declare addrs.simps(2) [simp del]

lemma addrs_items_mem: "kt \<in> set kts \<Longrightarrow> set (addrs (snd kt)) \<subseteq> set (addrs_items kts)"
  by (induction kts) auto

lemma repr_items_Nil [simp]: "repr_items h []"
  by (simp add: repr_items_def)

lemma repr_items_Cons [simp]: "repr_items h (kt # kts) \<longleftrightarrow> repr h (snd kt) \<and> repr_items h kts"
  by (simp add: repr_items_def)

lemma repr_items_append [simp]: "repr_items h (xs @ ys) \<longleftrightarrow> repr_items h xs \<and> repr_items h ys"
  by (auto simp: repr_items_def)

lemma repr_TDict [simp]:
  "repr h (TDict p kts) \<longleftrightarrow>
     p < length h \<and> h ! p = entries kts \<and> distinct (map fst kts) \<and> repr_items h kts"
  by (simp add: repr_items_def)

declare repr.simps(2) [simp del]

lemma entries_Nil [simp]: "entries [] = []"
  by (simp add: entries_def)

lemma entries_Cons [simp]: "entries (kt # kts) = (fst kt, root (snd kt)) # entries kts"
  by (simp add: entries_def)

lemma entries_append [simp]: "entries (xs @ ys) = entries xs @ entries ys"
  by (simp add: entries_def)

lemma map_fst_entries [simp]: "map fst (entries kts) = map fst kts"
  by (simp add: entries_def comp_def)

lemma map_of_entries: "map_of (entries kts) k = map_option root (map_of kts k)"
  by (induction kts) auto

lemma entries_update: "entries (AList.update k t kts) = AList.update k (root t) (entries kts)"
  by (induction kts) auto

lemma depth_items_Nil [simp]: "depth_items [] = 0"
  by (simp add: depth_items_def)

lemma depth_items_Cons [simp]: "depth_items (kt # kts) = max (depth (snd kt)) (depth_items kts)"
  by (simp add: depth_items_def)

lemma depth_TDict [simp]: "depth (TDict p kts) = Suc (depth_items kts)"
  by (simp add: depth_items_def)

declare depth.simps(2) [simp del]

lemma tree_induct [case_names Leaf Dict]:
  assumes "\<And>x. P (TLeaf x)"
    and "\<And>p kts. (\<And>kt. kt \<in> set kts \<Longrightarrow> P (snd kt)) \<Longrightarrow> P (TDict p kts)"
  shows "P t"
proof (induction t)
  case (TLeaf x)
  show ?case by (rule assms(1))
next
  case (TDict p kts)
  show ?case
  proof (rule assms(2))
    fix kt :: "key \<times> 'a tree" assume "kt \<in> set kts"
    moreover have "snd kt \<in> Basic_BNFs.snds kt" by (cases kt) simp
    ultimately show "P (snd kt)" by (rule TDict)
  qed
qed

lemma set_addrs_items: "set (addrs_items kts) = (\<Union>kt\<in>set kts. set (addrs (snd kt)))"
  by (simp add: addrs_items_def)

lemma repr_addrs_lt: "repr h t \<Longrightarrow> p \<in> set (addrs t) \<Longrightarrow> p < length h"
proof (induction t rule: tree_induct)
  case (Leaf x)
  then show ?case by simp
next
  case (Dict q kts)
  then show ?case by (auto simp: set_addrs_items repr_items_def)
qed

lemma repr_items_addrs_lt: "repr_items h kts \<Longrightarrow> p \<in> set (addrs_items kts) \<Longrightarrow> p < length h"
  by (auto simp: set_addrs_items repr_items_def dest: repr_addrs_lt)

lemma repr_frame:
  "repr h t \<Longrightarrow> length h \<le> length h' \<Longrightarrow> (\<And>p. p \<in> set (addrs t) \<Longrightarrow> h' ! p = h ! p) \<Longrightarrow> repr h' t"
proof (induction t rule: tree_induct)
  case (Leaf x)
  then show ?case by simp
next
  case (Dict q kts)
  have "repr_items h' kts"
    unfolding repr_items_def
  proof
    fix kt assume kt: "kt \<in> set kts"
    with Dict.prems(1) have "repr h (snd kt)" by (simp add: repr_items_def)
    moreover have "\<And>p. p \<in> set (addrs (snd kt)) \<Longrightarrow> h' ! p = h ! p"
      using Dict.prems(3) kt by (auto simp: set_addrs_items)
    ultimately show "repr h' (snd kt)" using Dict.IH [OF kt] Dict.prems(2) by blast
  qed
  moreover have "h' ! q = h ! q" using Dict.prems(3) by simp
  ultimately show ?case using Dict.prems(1,2) by simp
qed

lemma repr_items_frame:
  "repr_items h kts \<Longrightarrow> length h \<le> length h' \<Longrightarrow>
   (\<And>p. p \<in> set (addrs_items kts) \<Longrightarrow> h' ! p = h ! p) \<Longrightarrow> repr_items h' kts"
  unfolding repr_items_def
proof
  fix kt assume kt: "kt \<in> set kts"
  assume a: "\<forall>kt\<in>set kts. repr h (snd kt)" and l: "length h \<le> length h'"
    and f: "\<And>p. p \<in> set (addrs_items kts) \<Longrightarrow> h' ! p = h ! p"
  from a kt have r: "repr h (snd kt)" by simp
  have "\<And>p. p \<in> set (addrs (snd kt)) \<Longrightarrow> h' ! p = h ! p"
    using f kt by (auto simp: set_addrs_items)
  with r l show "repr h' (snd kt)" by (rule repr_frame)
qed

subsection \<open>copy\<close>

lemma copy_tree_items_keys: "copy_tree_items n kts = (r, n') \<Longrightarrow> map fst r = map fst kts"
proof (induction n kts arbitrary: r n' rule: copy_tree_items.induct)
  case (1 n)
  then show ?case by simp
next
  case (2 n k x kts)
  from "2.prems" obtain r' where a: "copy_tree_items n kts = (r', n')" and r: "r = (k, TLeaf x) # r'"
    by (auto split: prod.splits)
  from "2.IH" [OF a] r show ?case by simp
next
  case (3 n k p cs kts)
  from "3.prems" obtain cs' n1 r' where
    a: "copy_tree_items (Suc n) cs = (cs', n1)" and b: "copy_tree_items n1 kts = (r', n')"
    and r: "r = (k, TDict n cs') # r'"
    by (auto split: prod.splits)
  from "3.IH"(2) [OF a [symmetric] b] r show ?case by simp
qed

lemma copy_tree_items_mono: "copy_tree_items n kts = (r, n') \<Longrightarrow> n \<le> n'"
proof (induction n kts arbitrary: r n' rule: copy_tree_items.induct)
  case (1 n)
  then show ?case by simp
next
  case (2 n k x kts)
  from "2.prems" obtain r' where a: "copy_tree_items n kts = (r', n')"
    by (auto split: prod.splits)
  from "2.IH" [OF a] show ?case .
next
  case (3 n k p cs kts)
  from "3.prems" obtain cs' n1 r' where
    a: "copy_tree_items (Suc n) cs = (cs', n1)" and b: "copy_tree_items n1 kts = (r', n')"
    by (auto split: prod.splits)
  from "3.IH"(1) [OF a] "3.IH"(2) [OF a [symmetric] b] show ?case by simp
qed

lemma copy_tree_items_addrs:
  "copy_tree_items n kts = (r, n') \<Longrightarrow> addrs_items r = [n..<n']"
proof (induction n kts arbitrary: r n' rule: copy_tree_items.induct)
  case (1 n)
  then show ?case by simp
next
  case (2 n k x kts)
  from "2.prems" obtain r' where a: "copy_tree_items n kts = (r', n')" and r: "r = (k, TLeaf x) # r'"
    by (auto split: prod.splits)
  from "2.IH" [OF a] r show ?case by simp
next
  case (3 n k p cs kts)
  from "3.prems" obtain cs' n1 r' where
    a: "copy_tree_items (Suc n) cs = (cs', n1)" and b: "copy_tree_items n1 kts = (r', n')"
    and r: "r = (k, TDict n cs') # r'"
    by (auto split: prod.splits)
  have m1: "Suc n \<le> n1" using a by (rule copy_tree_items_mono)
  have m2: "n1 \<le> n'" using b by (rule copy_tree_items_mono)
  have "addrs_items r = n # [Suc n..<n1] @ [n1..<n']"
    using "3.IH"(1) [OF a] "3.IH"(2) [OF a [symmetric] b] r by simp
  also have "[Suc n..<n1] @ [n1..<n'] = [Suc n..<n']"
    using m1 m2 upt_add_eq_append [of "Suc n" n1 "n' - n1"] by simp
  also have "n # [Suc n..<n'] = [n..<n']"
    using m1 m2 upt_conv_Cons [of n n'] by simp
  finally show ?case .
qed

lemma copy_tree_items_shape:
  "copy_tree_items n kts = (r, n') \<Longrightarrow>
   map (\<lambda>kt. (fst kt, shape_of (snd kt))) r = map (\<lambda>kt. (fst kt, shape_of (snd kt))) kts"
proof (induction n kts arbitrary: r n' rule: copy_tree_items.induct)
  case (1 n)
  then show ?case by simp
next
  case (2 n k x kts)
  from "2.prems" obtain r' where a: "copy_tree_items n kts = (r', n')" and r: "r = (k, TLeaf x) # r'"
    by (auto split: prod.splits)
  from "2.IH" [OF a] r show ?case by simp
next
  case (3 n k p cs kts)
  from "3.prems" obtain cs' n1 r' where
    a: "copy_tree_items (Suc n) cs = (cs', n1)" and b: "copy_tree_items n1 kts = (r', n')"
    and r: "r = (k, TDict n cs') # r'"
    by (auto split: prod.splits)
  from "3.IH"(1) [OF a] "3.IH"(2) [OF a [symmetric] b] r show ?case by simp
qed

subsection \<open>The copy on trees and on the heap\<close>

lemma repr_items_setitem:
  assumes "repr_items h kts" "y \<notin> set (addrs_items kts)"
  shows "repr_items (setitem h y k v) kts"
proof (rule repr_items_frame [OF assms(1)])
  show "length h \<le> length (setitem h y k v)" by simp
next
  fix p assume "p \<in> set (addrs_items kts)"
  with assms(2) have "p \<noteq> y" by auto
  then show "setitem h y k v ! p = h ! p" by (rule nth_setitem_other)
qed

lemma copy_items_sim:
  assumes "copy_tree_items n kts = (r, n')"
    and "n = length h" and "y < length h" and "repr_items h kts" and "depth_items kts \<le> fuel"
    and "distinct (map fst kts)" and "set (map fst kts) \<inter> fst ` set (h ! y) = {}"
    and "y \<notin> set (addrs_items kts)"
  shows "\<exists>h'. copy_items fuel (entries kts) h y = Some h' \<and> length h' = n'
           \<and> h' ! y = h ! y @ entries r \<and> repr_items h' r
           \<and> (\<forall>p<length h. p \<noteq> y \<longrightarrow> h' ! p = h ! p)"
  using assms
proof (induction n kts arbitrary: r n' h y fuel rule: copy_tree_items.induct)
  case (1 n)
  then show ?case by simp
next
  case (2 n k x kts)
  from "2.prems"(1) obtain r' where a: "copy_tree_items n kts = (r', n')"
    and r: "r = (k, TLeaf x) # r'"
    by (auto split: prod.splits)
  let ?h2 = "setitem h y k (Leaf x)"
  have knew: "k \<notin> fst ` set (h ! y)" using "2.prems"(7) by auto
  have h2y: "?h2 ! y = h ! y @ [(k, Leaf x)]"
    using "2.prems"(3) knew by (simp add: nth_setitem_same update_fresh)
  have p2: "n = length ?h2" "y < length ?h2" using "2.prems"(2,3) by simp_all
  have p4: "repr_items ?h2 kts"
    using "2.prems"(4,8) by (intro repr_items_setitem) simp_all
  have p5: "depth_items kts \<le> fuel" using "2.prems"(5) by simp
  have p6: "distinct (map fst kts)" using "2.prems"(6) by simp
  have p7: "set (map fst kts) \<inter> fst ` set (?h2 ! y) = {}"
    using "2.prems"(6,7) by (auto simp: h2y)
  have p8: "y \<notin> set (addrs_items kts)" using "2.prems"(8) by simp
  from "2.IH" [OF a p2 p4 p5 p6 p7 p8] obtain h' where
    h': "copy_items fuel (entries kts) ?h2 y = Some h'" "length h' = n'"
      "h' ! y = ?h2 ! y @ entries r'" "repr_items h' r'"
      "\<forall>p<length ?h2. p \<noteq> y \<longrightarrow> h' ! p = ?h2 ! p"
    by blast
  have "copy_items fuel (entries ((k, TLeaf x) # kts)) h y = Some h'"
    using h'(1) by simp
  moreover have "h' ! y = h ! y @ entries r" using h'(3) h2y r by simp
  moreover have "repr_items h' r" using h'(4) r by simp
  moreover have "\<forall>p<length h. p \<noteq> y \<longrightarrow> h' ! p = h ! p"
    using h'(5) by (simp add: nth_setitem_other)
  ultimately show ?case using h'(2) by blast
next
  case (3 n k q cs kts)
  from "3.prems"(1) obtain cs' n1 r' where
    a: "copy_tree_items (Suc n) cs = (cs', n1)" and b: "copy_tree_items n1 kts = (r', n')"
    and r: "r = (k, TDict n cs') # r'"
    by (auto split: prod.splits)
  from "3.prems"(5) obtain m where fuel: "fuel = Suc m" and dm: "depth_items cs \<le> m"
    by (cases fuel) auto
  from "3.prems"(4) have q: "q < length h" "h ! q = entries cs" "distinct (map fst cs)"
    "repr_items h cs" "repr_items h kts"
    by simp_all
  let ?h0 = "h @ [[]]"
  have n: "n = length h" by (rule "3.prems"(2))
  have lt: "\<And>p. p \<in> set (addrs_items cs) \<Longrightarrow> p < length h"
    using q(4) by (rule repr_items_addrs_lt)
  have c2: "Suc n = length ?h0" using n by simp
  have c3: "n < length ?h0" using n by simp
  have c4: "repr_items ?h0 cs"
  proof (rule repr_items_frame [OF q(4)])
    show "length h \<le> length ?h0" by simp
  next
    fix p assume "p \<in> set (addrs_items cs)"
    then have "p < length h" by (rule lt)
    then show "?h0 ! p = h ! p" by (simp add: nth_append)
  qed
  have c7: "set (map fst cs) \<inter> fst ` set (?h0 ! n) = {}" using n by simp
  have c8: "n \<notin> set (addrs_items cs)" using lt n by auto
  from "3.IH"(1) [OF a c2 c3 c4 dm q(3) c7 c8] obtain h1 where
    h1: "copy_items m (entries cs) ?h0 n = Some h1" "length h1 = n1"
      "h1 ! n = ?h0 ! n @ entries cs'" "repr_items h1 cs'"
      "\<forall>p<length ?h0. p \<noteq> n \<longrightarrow> h1 ! p = ?h0 ! p"
    by blast
  have m1: "Suc n \<le> n1" using a by (rule copy_tree_items_mono)
  have old1: "\<And>p. p < length h \<Longrightarrow> h1 ! p = h ! p"
    using h1(5) n by (simp add: nth_append)
  let ?h2 = "setitem h1 y k (Ref n)"
  have yn: "y < n" using "3.prems"(3) n by simp
  have knew: "k \<notin> fst ` set (h ! y)" using "3.prems"(7) by auto
  have h2y: "?h2 ! y = h ! y @ [(k, Ref n)]"
    using yn m1 h1(2) knew old1 [of y] n by (simp add: nth_setitem_same update_fresh)
  have old2: "\<And>p. p < length h \<Longrightarrow> p \<noteq> y \<Longrightarrow> ?h2 ! p = h ! p"
    using old1 by (simp add: nth_setitem_other)
  have d2: "n1 = length ?h2" "y < length ?h2" using h1(2) yn m1 by simp_all
  have ltk: "\<And>p. p \<in> set (addrs_items kts) \<Longrightarrow> p < length h"
    using q(5) by (rule repr_items_addrs_lt)
  have d8: "y \<notin> set (addrs_items kts)" using "3.prems"(8) by simp
  have d4: "repr_items ?h2 kts"
  proof (rule repr_items_frame [OF q(5)])
    show "length h \<le> length ?h2" using h1(2) m1 n by simp
  next
    fix p assume p: "p \<in> set (addrs_items kts)"
    then have "p < length h" by (rule ltk)
    moreover from p d8 have "p \<noteq> y" by auto
    ultimately show "?h2 ! p = h ! p" by (rule old2)
  qed
  have d5: "depth_items kts \<le> fuel" using "3.prems"(5) by simp
  have d6: "distinct (map fst kts)" using "3.prems"(6) by simp
  have d7: "set (map fst kts) \<inter> fst ` set (?h2 ! y) = {}"
    using "3.prems"(6,7) by (auto simp: h2y)
  from "3.IH"(2) [OF a [symmetric] b d2 d4 d5 d6 d7 d8] obtain h' where
    h': "copy_items fuel (entries kts) ?h2 y = Some h'" "length h' = n'"
      "h' ! y = ?h2 ! y @ entries r'" "repr_items h' r'"
      "\<forall>p<length ?h2. p \<noteq> y \<longrightarrow> h' ! p = ?h2 ! p"
    by blast
  have run: "copy_items fuel (entries ((k, TDict q cs) # kts)) h y = Some h'"
    using h'(1) h1(1) q(1,2) fuel n by simp
  have m2: "n1 \<le> n'" using b by (rule copy_tree_items_mono)
  have acs: "set (addrs_items cs') = {Suc n..<n1}"
    using copy_tree_items_addrs [OF a] by simp
  have new: "\<And>p. n \<le> p \<Longrightarrow> p < n1 \<Longrightarrow> h' ! p = h1 ! p"
    using h'(5) h1(2) yn by (simp add: nth_setitem_other)
  have "repr_items h' cs'"
  proof (rule repr_items_frame [OF h1(4)])
    show "length h1 \<le> length h'" using h1(2) h'(2) m2 by simp
  next
    fix p assume "p \<in> set (addrs_items cs')"
    with acs have "n \<le> p" "p < n1" by auto
    then show "h' ! p = h1 ! p" by (rule new)
  qed
  moreover have "h' ! n = entries cs'" using new [of n] m1 h1(3) n by simp
  moreover have "distinct (map fst cs')" using copy_tree_items_keys [OF a] q(3) by simp
  moreover have "n < length h'" using h'(2) m1 m2 by simp
  ultimately have rc: "repr h' (TDict n cs')" by simp
  have "h' ! y = h ! y @ entries r" using h'(3) h2y r by simp
  moreover have "repr_items h' r" using h'(4) rc r by simp
  moreover have "\<forall>p<length h. p \<noteq> y \<longrightarrow> h' ! p = h ! p"
  proof (intro allI impI)
    fix p assume p: "p < length h" "p \<noteq> y"
    then have "p < length ?h2" using h1(2) m1 n by simp
    with h'(5) p have "h' ! p = ?h2 ! p" by simp
    with old2 [OF p] show "h' ! p = h ! p" by simp
  qed
  ultimately show ?case using run h'(2) by blast
qed

lemma deepcopy_sim:
  assumes "repr h (TDict p cs)" and "depth (TDict p cs) \<le> fuel"
    and "copy_tree_items (Suc (length h)) cs = (cs', n')"
  shows "\<exists>h'. deepcopy fuel h p = Some (h', length h) \<and> length h' = n'
           \<and> repr h' (TDict (length h) cs') \<and> (\<forall>q<length h. h' ! q = h ! q)"
proof -
  from assms(2) obtain m where fuel: "fuel = Suc m" and dm: "depth_items cs \<le> m"
    by (cases fuel) auto
  from assms(1) have q: "p < length h" "h ! p = entries cs" "distinct (map fst cs)"
    "repr_items h cs"
    by simp_all
  let ?n = "length h"
  let ?h0 = "h @ [[]]"
  have lt: "\<And>p. p \<in> set (addrs_items cs) \<Longrightarrow> p < length h"
    using q(4) by (rule repr_items_addrs_lt)
  have c2: "Suc ?n = length ?h0" by simp
  have c3: "?n < length ?h0" by simp
  have c4: "repr_items ?h0 cs"
  proof (rule repr_items_frame [OF q(4)])
    show "length h \<le> length ?h0" by simp
  next
    fix p assume "p \<in> set (addrs_items cs)"
    then have "p < length h" by (rule lt)
    then show "?h0 ! p = h ! p" by (simp add: nth_append)
  qed
  have c7: "set (map fst cs) \<inter> fst ` set (?h0 ! ?n) = {}" by simp
  have c8: "?n \<notin> set (addrs_items cs)" using lt by auto
  from copy_items_sim [OF assms(3) c2 c3 c4 dm q(3) c7 c8] obtain h1 where
    h1: "copy_items m (entries cs) ?h0 ?n = Some h1" "length h1 = n'"
      "h1 ! ?n = ?h0 ! ?n @ entries cs'" "repr_items h1 cs'"
      "\<forall>p<length ?h0. p \<noteq> ?n \<longrightarrow> h1 ! p = ?h0 ! p"
    by blast
  have m1: "Suc ?n \<le> n'" using assms(3) by (rule copy_tree_items_mono)
  have "deepcopy fuel h p = Some (h1, ?n)"
    using h1(1) q(1,2) fuel by (simp add: deepcopy_def)
  moreover have "repr h1 (TDict ?n cs')"
    using h1(2,3,4) m1 copy_tree_items_keys [OF assms(3)] q(3) by simp
  moreover have "\<forall>q<length h. h1 ! q = h ! q"
    using h1(5) by (simp add: nth_append)
  ultimately show ?thesis using h1(2) by blast
qed

lemma merge_items_mono:
  "merge_items le rc path n kas kbs = (res, kas', n') \<Longrightarrow> n \<le> n'"
proof (induction le rc path n kas kbs arbitrary: res kas' n' rule: merge_items.induct)
  case (1 le rc path n kas)
  then show ?case by simp
next
  case (2 le rc path n kas k y kbs)
  then show ?case by (auto split: option.splits if_splits)
next
  case (3 le rc path n kas k b' bs kbs)
  show ?case
  proof (cases "map_of kas k")
    case None
    obtain cs n1 where c: "copy_tree_items (Suc n) bs = (cs, n1)" by force
    with None "3.prems" have "merge_items le rc path n1 (AList.update k (TDict n cs) kas) kbs = (res, kas', n')"
      by simp
    from "3.IH"(1) [OF None c [symmetric] this] copy_tree_items_mono [OF c] show ?thesis by simp
  next
    case (Some ta)
    show ?thesis
    proof (cases ta)
      case (TLeaf x)
      with Some "3.prems" "3.IH"(2) [OF Some TLeaf] show ?thesis by (auto split: if_splits)
    next
      case (TDict a' as)
      obtain r as' n1 where i: "merge_items le rc (path @ [k]) n as bs = (r, as', n1)"
        using prod_cases3 by blast
      from "3.IH"(3) [OF Some TDict i] have le1: "n \<le> n1" .
      show ?thesis
      proof (cases r)
        case (Inl e)
        with Some TDict i "3.prems" le1 show ?thesis by simp
      next
        case (Inr u)
        with Some TDict i "3.prems"
        have "merge_items le rc path n1 (AList.update k (TDict a' as') kas) kbs = (res, kas', n')"
          by simp
        from "3.IH"(4) [OF Some TDict i [symmetric] Inr refl this] le1 show ?thesis by simp
      qed
    qed
  qed
qed

subsection \<open>Rule induction for the merge on trees\<close>

lemma merge_items_rule [consumes 1, case_names Nil Insert Equal Conflict Overwrite Descend_fail Descend]:
  assumes run: "merge_items le rc path n kas kbs = (res, kas', n')"
    and Nil: "\<And>le rc path n kas. P le rc path n kas [] (Inr ()) kas n"
    and Insert: "\<And>le rc path n kas k tb kbs t' n1 res kas' n'.
        map_of kas k = None \<Longrightarrow> copy_tree n tb = (t', n1) \<Longrightarrow>
        merge_items le rc path n1 (AList.update k t' kas) kbs = (res, kas', n') \<Longrightarrow>
        P le rc path n1 (AList.update k t' kas) kbs res kas' n' \<Longrightarrow>
        P le rc path n kas ((k, tb) # kbs) res kas' n'"
    and Equal: "\<And>le rc path n kas k ta tb kbs res kas' n'.
        map_of kas k = Some ta \<Longrightarrow> \<not> (is_dict ta \<and> is_dict tb) \<Longrightarrow>
        py_eq le (root ta) (root tb) \<Longrightarrow>
        merge_items le rc path n kas kbs = (res, kas', n') \<Longrightarrow>
        P le rc path n kas kbs res kas' n' \<Longrightarrow>
        P le rc path n kas ((k, tb) # kbs) res kas' n'"
    and Conflict: "\<And>le rc path n kas k ta tb kbs.
        map_of kas k = Some ta \<Longrightarrow> \<not> (is_dict ta \<and> is_dict tb) \<Longrightarrow>
        \<not> py_eq le (root ta) (root tb) \<Longrightarrow> rc \<Longrightarrow>
        P le rc path n kas ((k, tb) # kbs) (Inl (LookupError (conflict_msg (path @ [k])))) kas n"
    and Overwrite: "\<And>le rc path n kas k ta tb kbs res kas' n'.
        map_of kas k = Some ta \<Longrightarrow> \<not> (is_dict ta \<and> is_dict tb) \<Longrightarrow>
        \<not> py_eq le (root ta) (root tb) \<Longrightarrow> \<not> rc \<Longrightarrow>
        merge_items le rc path n (AList.update k tb kas) kbs = (res, kas', n') \<Longrightarrow>
        P le rc path n (AList.update k tb kas) kbs res kas' n' \<Longrightarrow>
        P le rc path n kas ((k, tb) # kbs) res kas' n'"
    and Descend_fail: "\<And>le rc path n kas k a' as b' bs kbs e as' n1.
        map_of kas k = Some (TDict a' as) \<Longrightarrow>
        merge_items le rc (path @ [k]) n as bs = (Inl e, as', n1) \<Longrightarrow>
        P le rc (path @ [k]) n as bs (Inl e) as' n1 \<Longrightarrow>
        P le rc path n kas ((k, TDict b' bs) # kbs) (Inl e) (AList.update k (TDict a' as') kas) n1"
    and Descend: "\<And>le rc path n kas k a' as b' bs kbs as' n1 res kas' n'.
        map_of kas k = Some (TDict a' as) \<Longrightarrow>
        merge_items le rc (path @ [k]) n as bs = (Inr (), as', n1) \<Longrightarrow>
        P le rc (path @ [k]) n as bs (Inr ()) as' n1 \<Longrightarrow>
        merge_items le rc path n1 (AList.update k (TDict a' as') kas) kbs = (res, kas', n') \<Longrightarrow>
        P le rc path n1 (AList.update k (TDict a' as') kas) kbs res kas' n' \<Longrightarrow>
        P le rc path n kas ((k, TDict b' bs) # kbs) res kas' n'"
  shows "P le rc path n kas kbs res kas' n'"
  using run
proof (induction le rc path n kas kbs arbitrary: res kas' n' rule: merge_items.induct)
  case (1 le rc path n kas)
  then show ?case using Nil by simp
next
  case (2 le rc path n kas k y kbs)
  show ?case
  proof (cases "map_of kas k")
    case None
    have c: "copy_tree n (TLeaf y) = (TLeaf y, n)" by (simp add: copy_tree_def)
    from None "2.prems" have r: "merge_items le rc path n (AList.update k (TLeaf y) kas) kbs = (res, kas', n')"
      by simp
    from "2.IH"(1) [OF None r] have "P le rc path n (AList.update k (TLeaf y) kas) kbs res kas' n'" .
    with None c r show ?thesis by (rule Insert)
  next
    case (Some ta)
    have nd: "\<not> (is_dict ta \<and> is_dict (TLeaf y))" by simp
    show ?thesis
    proof (cases "py_eq le (root ta) (Leaf y)")
      case True
      with Some "2.prems" have r: "merge_items le rc path n kas kbs = (res, kas', n')" by simp
      from "2.IH"(2) [OF Some True r] have "P le rc path n kas kbs res kas' n'" .
      with Some nd True r show ?thesis by (intro Equal) simp_all
    next
      case False
      show ?thesis
      proof (cases rc)
        case True
        with Some False "2.prems" have "res = Inl (LookupError (conflict_msg (path @ [k])))"
          "kas' = kas" "n' = n" by simp_all
        with Some nd False True show ?thesis using Conflict [of kas k ta "TLeaf y" le rc path n kbs]
          by simp
      next
        case rcF: False
        with Some False "2.prems"
        have r: "merge_items le rc path n (AList.update k (TLeaf y) kas) kbs = (res, kas', n')"
          by simp
        from "2.IH"(3) [OF Some False rcF r]
        have "P le rc path n (AList.update k (TLeaf y) kas) kbs res kas' n'" .
        with Some nd False rcF r show ?thesis by (intro Overwrite) simp_all
      qed
    qed
  qed
next
  case (3 le rc path n kas k b' bs kbs)
  show ?case
  proof (cases "map_of kas k")
    case None
    obtain cs n1 where c: "copy_tree_items (Suc n) bs = (cs, n1)" by force
    then have c': "copy_tree n (TDict b' bs) = (TDict n cs, n1)" by (simp add: copy_tree_def)
    from c None "3.prems"
    have r: "merge_items le rc path n1 (AList.update k (TDict n cs) kas) kbs = (res, kas', n')"
      by simp
    from "3.IH"(1) [OF None c [symmetric] r]
    have "P le rc path n1 (AList.update k (TDict n cs) kas) kbs res kas' n'" .
    with None c' r show ?thesis by (rule Insert)
  next
    case (Some ta)
    show ?thesis
    proof (cases ta)
      case (TLeaf x)
      have nd: "\<not> (is_dict ta \<and> is_dict (TDict b' bs))" using TLeaf by simp
      have ne: "\<not> py_eq le (root ta) (root (TDict b' bs))" using TLeaf by simp
      show ?thesis
      proof (cases rc)
        case True
        with Some TLeaf "3.prems" have "res = Inl (LookupError (conflict_msg (path @ [k])))"
          "kas' = kas" "n' = n" by simp_all
        with Some nd ne True show ?thesis using Conflict [of kas k ta "TDict b' bs" le rc path n kbs]
          by simp
      next
        case rcF: False
        with Some TLeaf "3.prems"
        have r: "merge_items le rc path n (AList.update k (TDict b' bs) kas) kbs = (res, kas', n')"
          by simp
        from "3.IH"(2) [OF Some TLeaf rcF r]
        have "P le rc path n (AList.update k (TDict b' bs) kas) kbs res kas' n'" .
        with Some nd ne rcF r show ?thesis by (rule Overwrite)
      qed
    next
      case (TDict a' as)
      obtain r as' n1 where i: "merge_items le rc (path @ [k]) n as bs = (r, as', n1)"
        using prod_cases3 by blast
      from "3.IH"(3) [OF Some TDict i] have Pi: "P le rc (path @ [k]) n as bs r as' n1" .
      from Some TDict have S: "map_of kas k = Some (TDict a' as)" by simp
      show ?thesis
      proof (cases r)
        case (Inl e)
        with S i "3.prems" have "res = Inl e" "kas' = AList.update k (TDict a' as') kas" "n' = n1"
          by simp_all
        with Descend_fail [OF S i [unfolded Inl] Pi [unfolded Inl]] show ?thesis by simp
      next
        case (Inr u)
        with S i "3.prems"
        have c: "merge_items le rc path n1 (AList.update k (TDict a' as') kas) kbs = (res, kas', n')"
          by simp
        from "3.IH"(4) [OF Some TDict i [symmetric] Inr refl c]
        have Pc: "P le rc path n1 (AList.update k (TDict a' as') kas) kbs res kas' n'" .
        have u: "r = Inr ()" using Inr by simp
        from Descend [OF S i [unfolded u] Pi [unfolded u] c Pc] show ?thesis .
      qed
    qed
  qed
qed

subsection \<open>Addresses under updates\<close>

lemma addrs_items_update_subset:
  "set (addrs_items (AList.update k t kts)) \<subseteq> set (addrs t) \<union> set (addrs_items kts)"
  by (induction kts) auto

lemma map_of_addrs_subset: "map_of kts k = Some t \<Longrightarrow> set (addrs t) \<subseteq> set (addrs_items kts)"
  by (induction kts) (auto split: if_splits)

lemma map_of_addrs_distinct:
  "map_of kts k = Some t \<Longrightarrow> distinct (addrs_items kts) \<Longrightarrow> distinct (addrs t)"
  by (induction kts) (auto split: if_splits)

lemma addrs_items_others:
  "distinct (map fst kts) \<Longrightarrow> distinct (addrs_items kts) \<Longrightarrow> map_of kts k = Some t \<Longrightarrow>
   kt \<in> set kts \<Longrightarrow> fst kt \<noteq> k \<Longrightarrow> set (addrs (snd kt)) \<inter> set (addrs t) = {}"
proof (induction kts)
  case Nil
  then show ?case by simp
next
  case (Cons x kts)
  show ?case
  proof (cases "fst x = k")
    case True
    with Cons.prems have t: "t = snd x" and m: "kt \<in> set kts" by auto
    from m have "set (addrs (snd kt)) \<subseteq> set (addrs_items kts)" by (rule addrs_items_mem)
    with Cons.prems(2) t show ?thesis by auto
  next
    case False
    with Cons.prems have mt: "map_of kts k = Some t" by (cases x) auto
    show ?thesis
    proof (cases "kt = x")
      case True
      from mt have "set (addrs t) \<subseteq> set (addrs_items kts)" by (rule map_of_addrs_subset)
      with Cons.prems(2) True show ?thesis by auto
    next
      case F2: False
      with Cons.prems have "kt \<in> set kts" by simp
      with Cons.IH mt Cons.prems show ?thesis by simp
    qed
  qed
qed

lemma distinct_addrs_items_update:
  "distinct (map fst kts) \<Longrightarrow> distinct (addrs_items kts) \<Longrightarrow> distinct (addrs t) \<Longrightarrow>
   (\<And>kt. kt \<in> set kts \<Longrightarrow> fst kt \<noteq> k \<Longrightarrow> set (addrs (snd kt)) \<inter> set (addrs t) = {}) \<Longrightarrow>
   distinct (addrs_items (AList.update k t kts))"
proof (induction kts)
  case Nil
  then show ?case by simp
next
  case (Cons x kts)
  show ?case
  proof (cases "fst x = k")
    case True
    have "set (addrs t) \<inter> set (addrs_items kts) = {}"
    proof -
      have "\<And>kt. kt \<in> set kts \<Longrightarrow> set (addrs (snd kt)) \<inter> set (addrs t) = {}"
      proof -
        fix kt assume m: "kt \<in> set kts"
        with Cons.prems(1) True have "fst kt \<noteq> k" by (cases x) force
        with m show "set (addrs (snd kt)) \<inter> set (addrs t) = {}" using Cons.prems(4) by simp
      qed
      then show ?thesis by (auto simp: set_addrs_items)
    qed
    with True Cons.prems show ?thesis by (cases x) auto
  next
    case False
    have ih: "distinct (addrs_items (AList.update k t kts))"
      using Cons.IH Cons.prems by simp
    have "set (addrs (snd x)) \<inter> set (addrs_items (AList.update k t kts)) = {}"
    proof -
      have "set (addrs (snd x)) \<inter> set (addrs t) = {}" using Cons.prems(4) [of x] False by simp
      moreover have "set (addrs (snd x)) \<inter> set (addrs_items kts) = {}" using Cons.prems(2) by simp
      ultimately show ?thesis using addrs_items_update_subset [of k t kts] by blast
    qed
    with False ih Cons.prems show ?thesis by (cases x) auto
  qed
qed

lemma map_of_repr: "repr_items h kts \<Longrightarrow> map_of kts k = Some t \<Longrightarrow> repr h t"
  by (induction kts) (auto split: if_splits)

lemma repr_items_update:
  "distinct (map fst kts) \<Longrightarrow> (\<And>kt. kt \<in> set kts \<Longrightarrow> fst kt \<noteq> k \<Longrightarrow> repr h (snd kt)) \<Longrightarrow>
   repr h t \<Longrightarrow> repr_items h (AList.update k t kts)"
proof (induction kts)
  case Nil
  then show ?case by simp
next
  case (Cons x kts)
  show ?case
  proof (cases "fst x = k")
    case True
    have "repr_items h kts"
      unfolding repr_items_def
    proof
      fix kt assume m: "kt \<in> set kts"
      with Cons.prems(1) True have "fst kt \<noteq> k" by (cases x) force
      with m show "repr h (snd kt)" using Cons.prems(2) by simp
    qed
    with True Cons.prems(3) show ?thesis by (cases x) auto
  next
    case False
    have "repr_items h (AList.update k t kts)"
      using Cons.IH Cons.prems by simp
    moreover have "repr h (snd x)" using Cons.prems(2) [of x] False by simp
    ultimately show ?thesis using False by (cases x) auto
  qed
qed

lemma map_of_depth: "map_of kts k = Some t \<Longrightarrow> depth t \<le> depth_items kts"
  by (induction kts) (auto split: if_splits)

lemma copy_tree_mono: "copy_tree n t = (t', n1) \<Longrightarrow> n \<le> n1"
  by (cases t) (auto simp: copy_tree_def split: prod.splits dest: copy_tree_items_mono)

lemma copy_tree_addrs: "copy_tree n t = (t', n1) \<Longrightarrow> addrs t' = [n..<n1]"
proof (cases t)
  case (TLeaf x)
  assume "copy_tree n t = (t', n1)"
  with TLeaf show ?thesis by (auto simp: copy_tree_def)
next
  case (TDict p cs)
  assume c: "copy_tree n t = (t', n1)"
  with TDict obtain cs' where a: "copy_tree_items (Suc n) cs = (cs', n1)" and t': "t' = TDict n cs'"
    by (auto simp: copy_tree_def split: prod.splits)
  from copy_tree_items_addrs [OF a] copy_tree_items_mono [OF a] t' show ?thesis
    by (simp add: upt_conv_Cons)
qed

lemma copy_tree_shape: "copy_tree n t = (t', n1) \<Longrightarrow> shape_of t' = shape_of t"
  by (cases t) (auto simp: copy_tree_def split: prod.splits dest: copy_tree_items_shape)

lemma copy_tree_is_dict: "copy_tree n t = (t', n1) \<Longrightarrow> is_dict t' = is_dict t"
  by (cases t) (auto simp: copy_tree_def split: prod.splits)

lemma touched_subset: "set (touched kas kbs) \<subseteq> set (addrs_items kas)"
  by (auto simp: touched_def set_addrs_items)

lemma touched_Cons_subset: "set (touched kas kbs) \<subseteq> set (touched kas (kt # kbs))"
  by (auto simp: touched_def set_addrs_items)

lemma filter_update_other:
  "k \<notin> K \<Longrightarrow> filter (\<lambda>kt. fst kt \<in> K) (AList.update k t kas) = filter (\<lambda>kt. fst kt \<in> K) kas"
  by (induction kas) auto

lemma touched_update: "k \<notin> fst ` set kbs \<Longrightarrow> touched (AList.update k t kas) kbs = touched kas kbs"
  by (simp add: touched_def filter_update_other)

lemma touched_head: "map_of kas k = Some t \<Longrightarrow> set (addrs t) \<subseteq> set (touched kas ((k, tb) # kbs))"
proof -
  assume "map_of kas k = Some t"
  then have "(k, t) \<in> set kas" by (rule map_of_SomeD)
  then have "(k, t) \<in> set (filter (\<lambda>kt. fst kt \<in> fst ` set ((k, tb) # kbs)) kas)" by simp
  from addrs_items_mem [OF this] show ?thesis by (simp add: touched_def)
qed

subsection \<open>The invariant across one key\<close>

lemma depth_items_append [simp]: "depth_items (xs @ ys) = max (depth_items xs) (depth_items ys)"
  by (induction xs) auto

lemma pre_prefix: "merge_pre h a b fuel kas (kbs @ rest) \<Longrightarrow> merge_pre h a b fuel kas kbs"
  by (auto simp: merge_pre_def)

lemma pre_tail: "merge_pre h a b fuel kas (kt # kbs) \<Longrightarrow> merge_pre h a b fuel kas kbs"
  by (auto simp: merge_pre_def)

lemma post_refl: "merge_pre h a b fuel kas kbs0 \<Longrightarrow> merge_post h a kas kbs h kas"
  by (auto simp: merge_pre_def merge_post_def)

lemma post_tail: "merge_post h a kas kbs h' kas' \<Longrightarrow> merge_post h a kas (kt # kbs) h' kas'"
  unfolding merge_post_def using touched_Cons_subset [of kas kbs kt] by auto

lemma pre_step:
  assumes pre: "merge_pre h a b fuel kas ((k, tb) # kbs)"
    and len: "length h \<le> length h1"
    and h1a: "h1 ! a = entries (AList.update k t1 kas)"
    and rt1: "repr h1 t1"
    and fr: "\<And>p. p < length h \<Longrightarrow> p \<noteq> a \<Longrightarrow> p \<notin> D \<Longrightarrow> h1 ! p = h ! p"
    and dt1: "distinct (addrs t1)"
    and st1: "set (addrs t1) \<subseteq> D \<union> set (addrs tb) \<union> {length h..<length h1}"
    and D: "D = (case map_of kas k of None \<Rightarrow> {} | Some t \<Rightarrow> set (addrs t))"
  shows "merge_pre h1 a b fuel (AList.update k t1 kas) kbs"
proof -
  from pre have a: "a < length h" and b: "b < length h" and ha: "h ! a = entries kas"
    and dk: "distinct (map fst kas)" and ra: "repr_items h kas"
    and mb: "\<forall>kt\<in>set kbs. map_of (h ! b) (fst kt) = Some (root (snd kt))"
    and rb: "repr_items h kbs" and db: "distinct (map fst kbs)"
    and rtb: "repr h tb"
    and sep: "distinct (a # addrs_items kas @ b # addrs tb @ addrs_items kbs)"
    and fu: "depth_items kbs \<le> fuel"
    by (simp_all add: merge_pre_def)
  have Dsub: "D \<subseteq> set (addrs_items kas)"
    using D by (auto split: option.splits dest: map_of_addrs_subset)
  have lta: "\<And>p. p \<in> set (addrs_items kas) \<Longrightarrow> p < length h"
    using ra by (rule repr_items_addrs_lt)
  have ltb: "\<And>p. p \<in> set (addrs_items kbs) \<Longrightarrow> p < length h"
    using rb by (rule repr_items_addrs_lt)
  have lttb: "\<And>p. p \<in> set (addrs tb) \<Longrightarrow> p < length h"
    using rtb by (rule repr_addrs_lt)
  have others: "\<And>kt. kt \<in> set kas \<Longrightarrow> fst kt \<noteq> k \<Longrightarrow> set (addrs (snd kt)) \<inter> D = {}"
  proof -
    fix kt assume kt: "kt \<in> set kas" "fst kt \<noteq> k"
    show "set (addrs (snd kt)) \<inter> D = {}"
    proof (cases "map_of kas k")
      case None
      with D show ?thesis by simp
    next
      case (Some t)
      from sep have "distinct (addrs_items kas)" by simp
      from addrs_items_others [OF dk this Some kt] D Some show ?thesis by simp
    qed
  qed
  have c5: "repr_items h1 (AList.update k t1 kas)"
  proof (rule repr_items_update [OF dk _ rt1])
    fix kt assume kt: "kt \<in> set kas" "fst kt \<noteq> k"
    from ra kt(1) have r: "repr h (snd kt)" by (simp add: repr_items_def)
    have sub: "set (addrs (snd kt)) \<subseteq> set (addrs_items kas)" using kt(1) by (rule addrs_items_mem)
    show "repr h1 (snd kt)"
    proof (rule repr_frame [OF r len])
      fix p assume p: "p \<in> set (addrs (snd kt))"
      with sub have pk: "p \<in> set (addrs_items kas)" by auto
      then have "p < length h" by (rule lta)
      moreover from pk sep have "p \<noteq> a" by auto
      moreover from p others [OF kt] have "p \<notin> D" by auto
      ultimately show "h1 ! p = h ! p" by (rule fr)
    qed
  qed
  have bD: "b \<notin> D" using Dsub sep by auto
  have hb: "h1 ! b = h ! b" using fr [OF b _ bD] sep by auto
  have c7: "repr_items h1 kbs"
  proof (rule repr_items_frame [OF rb len])
    fix p assume p: "p \<in> set (addrs_items kbs)"
    then have "p < length h" by (rule ltb)
    moreover from p sep have "p \<noteq> a" by auto
    moreover from p sep Dsub have "p \<notin> D" by auto
    ultimately show "h1 ! p = h ! p" by (rule fr)
  qed
  have st1': "\<And>x. x \<in> set (addrs t1) \<Longrightarrow> x \<in> set (addrs_items kas) \<or> x \<in> set (addrs tb) \<or> length h \<le> x"
    using st1 Dsub by auto
  have sepa: "a \<notin> set (addrs_items kas)" "a \<notin> set (addrs tb)" "a \<notin> set (addrs_items kbs)"
    and sepb: "b \<notin> set (addrs_items kas)" "b \<notin> set (addrs tb)" "b \<notin> set (addrs_items kbs)"
    and sepk: "\<And>x. x \<in> set (addrs_items kas) \<Longrightarrow> x \<notin> set (addrs_items kbs)"
      "\<And>x. x \<in> set (addrs tb) \<Longrightarrow> x \<notin> set (addrs_items kbs)"
    using sep by auto
  have t1a: "a \<notin> set (addrs t1)" using st1' [of a] sepa a by auto
  have t1b: "b \<notin> set (addrs t1)" using st1' [of b] sepb b by auto
  have t1k: "\<And>x. x \<in> set (addrs t1) \<Longrightarrow> x \<notin> set (addrs_items kbs)"
  proof
    fix x assume x: "x \<in> set (addrs t1)" "x \<in> set (addrs_items kbs)"
    from x(2) have "x < length h" by (rule ltb)
    with st1' [OF x(1)] sepk x(2) show False by auto
  qed
  have c9a: "distinct (addrs_items (AList.update k t1 kas))"
  proof (rule distinct_addrs_items_update [OF dk _ dt1])
    show "distinct (addrs_items kas)" using sep by simp
  next
    fix kt assume kt: "kt \<in> set kas" "fst kt \<noteq> k"
    have sub: "set (addrs (snd kt)) \<subseteq> set (addrs_items kas)" using kt(1) by (rule addrs_items_mem)
    have "set (addrs (snd kt)) \<inter> D = {}" using kt by (rule others)
    moreover have "set (addrs (snd kt)) \<inter> set (addrs tb) = {}" using sub sep by auto
    moreover have "set (addrs (snd kt)) \<inter> {length h..<length h1} = {}" using sub lta by fastforce
    ultimately show "set (addrs (snd kt)) \<inter> set (addrs t1) = {}" using st1 by blast
  qed
  have c9b: "set (addrs_items (AList.update k t1 kas)) \<subseteq> set (addrs t1) \<union> set (addrs_items kas)"
    by (rule addrs_items_update_subset)
  have c9c: "\<And>x. x \<in> set (addrs_items (AList.update k t1 kas)) \<Longrightarrow>
      x \<noteq> a \<and> x \<noteq> b \<and> x \<notin> set (addrs_items kbs)"
  proof -
    fix x assume "x \<in> set (addrs_items (AList.update k t1 kas))"
    with c9b have "x \<in> set (addrs t1) \<or> x \<in> set (addrs_items kas)" by auto
    then show "x \<noteq> a \<and> x \<noteq> b \<and> x \<notin> set (addrs_items kbs)"
      using t1a t1b t1k sepa sepb sepk by auto
  qed
  have "distinct (b # addrs_items kbs)" "a \<noteq> b" using sep by simp_all
  with c9a c9c sepa have c9: "distinct (a # addrs_items (AList.update k t1 kas) @ b # addrs_items kbs)"
    by auto
  show ?thesis
    unfolding merge_pre_def
    using a b len h1a dk c5 mb hb c7 db c9 fu by (simp add: distinct_update)
qed

lemma post_step:
  assumes kk: "k \<notin> fst ` set kbs"
    and len: "length h \<le> length h1"
    and fr: "\<And>p. p < length h \<Longrightarrow> p \<noteq> a \<Longrightarrow> p \<notin> D \<Longrightarrow> h1 ! p = h ! p"
    and st1: "set (addrs t1) \<subseteq> D \<union> set (addrs tb) \<union> {length h..<length h1}"
    and D: "D = (case map_of kas k of None \<Rightarrow> {} | Some t \<Rightarrow> set (addrs t))"
    and post: "merge_post h1 a (AList.update k t1 kas) kbs h' kas'"
  shows "merge_post h a kas ((k, tb) # kbs) h' kas'"
proof -
  have Dsub: "D \<subseteq> set (addrs_items kas)"
    using D by (auto split: option.splits dest: map_of_addrs_subset)
  have Dt: "D \<subseteq> set (touched kas ((k, tb) # kbs))"
    using D by (auto split: option.splits dest: touched_head)
  from post have l2: "length h1 \<le> length h'"
    and f2: "\<And>p. p < length h1 \<Longrightarrow> p \<noteq> a \<Longrightarrow> p \<notin> set (touched (AList.update k t1 kas) kbs) \<Longrightarrow> h' ! p = h1 ! p"
    and s2: "set (addrs_items kas') \<subseteq> set (addrs_items (AList.update k t1 kas)) \<union> set (addrs_items kbs) \<union> {length h1..<length h'}"
    by (simp_all add: merge_post_def)
  have frame: "\<forall>p<length h. p \<noteq> a \<longrightarrow> p \<notin> set (touched kas ((k, tb) # kbs)) \<longrightarrow> h' ! p = h ! p"
  proof (intro allI impI)
    fix p assume p: "p < length h" "p \<noteq> a" "p \<notin> set (touched kas ((k, tb) # kbs))"
    from p(3) Dt have "p \<notin> D" by auto
    with p have e1: "h1 ! p = h ! p" by (intro fr)
    from p(3) touched_Cons_subset [of kas kbs "(k, tb)"] have "p \<notin> set (touched kas kbs)" by auto
    then have "p \<notin> set (touched (AList.update k t1 kas) kbs)" using kk by (simp add: touched_update)
    moreover from p(1) len have "p < length h1" by simp
    ultimately have "h' ! p = h1 ! p" using p(2) by (intro f2)
    with e1 show "h' ! p = h ! p" by simp
  qed
  have "set (addrs_items (AList.update k t1 kas)) \<subseteq> set (addrs t1) \<union> set (addrs_items kas)"
    by (rule addrs_items_update_subset)
  then have u: "\<And>x. x \<in> set (addrs_items (AList.update k t1 kas)) \<Longrightarrow>
      x \<in> set (addrs_items kas) \<or> x \<in> set (addrs tb) \<or> (length h \<le> x \<and> x < length h1)"
    using st1 Dsub by fastforce
  have sub: "set (addrs_items kas') \<subseteq> set (addrs_items kas) \<union> set (addrs_items ((k, tb) # kbs)) \<union> {length h..<length h'}"
  proof
    fix x assume "x \<in> set (addrs_items kas')"
    with s2 have "x \<in> set (addrs_items (AList.update k t1 kas)) \<or> x \<in> set (addrs_items kbs)
        \<or> (length h1 \<le> x \<and> x < length h')" by auto
    then show "x \<in> set (addrs_items kas) \<union> set (addrs_items ((k, tb) # kbs)) \<union> {length h..<length h'}"
      using u [of x] len l2 by auto
  qed
  from post frame sub len l2 show ?thesis by (simp add: merge_post_def)
qed

subsection \<open>The loop on the heap computes the merge on trees\<close>

lemma merge_keys_insert_leaf:
  "map_of (h ! b) k = Some (Leaf x) \<Longrightarrow> map_of (h ! a) k = None \<Longrightarrow>
   merge_keys le fuel (k # ks) h a b rc path = merge_keys le fuel ks (setitem h a k (Leaf x)) a b rc path"
  by simp

lemma merge_keys_insert_dict:
  "map_of (h ! b) k = Some (Ref b') \<Longrightarrow> map_of (h ! a) k = None \<Longrightarrow>
   deepcopy fuel h b' = Some (h0, c) \<Longrightarrow>
   merge_keys le fuel (k # ks) h a b rc path = merge_keys le fuel ks (setitem h0 a k (Ref c)) a b rc path"
  by simp

lemma merge_keys_nondict:
  "map_of (h ! b) k = Some bv \<Longrightarrow> map_of (h ! a) k = Some av \<Longrightarrow>
   \<not> (\<exists>a' b'. av = Ref a' \<and> bv = Ref b') \<Longrightarrow>
   merge_keys le fuel (k # ks) h a b rc path =
     (if py_eq le av bv then merge_keys le fuel ks h a b rc path
      else if rc then Some (Inl (LookupError (conflict_msg (path @ [k]))), h)
      else merge_keys le fuel ks (setitem h a k bv) a b rc path)"
  by (cases av; cases bv) simp_all

lemma merge_keys_descend:
  "map_of (h ! b) k = Some (Ref b') \<Longrightarrow> map_of (h ! a) k = Some (Ref a') \<Longrightarrow>
   a' < length h \<Longrightarrow> b' < length h \<Longrightarrow>
   merge_keys le (Suc m) (k # ks) h a b rc path =
     (case merge_keys le m (map fst (h ! b')) h a' b' rc (path @ [k]) of
        None \<Rightarrow> None
      | Some (Inl e, h') \<Rightarrow> Some (Inl e, h')
      | Some (Inr r, h') \<Rightarrow> merge_keys le (Suc m) ks h' a b rc path)"
  by simp

lemma root_not_both:
  "\<not> (is_dict ta \<and> is_dict tb) \<Longrightarrow> \<not> (\<exists>a' b'. root ta = Ref a' \<and> root tb = Ref b')"
  by (cases ta; cases tb) simp_all

lemma pre_inner:
  assumes pre: "merge_pre h a b fuel kas ((k, TDict b' bs) # kbs)"
    and m: "map_of kas k = Some (TDict a' as)"
  shows "\<exists>m. fuel = Suc m \<and> merge_pre h a' b' m as bs"
proof -
  from pre have ra: "repr_items h kas" and rtb: "repr h (TDict b' bs)"
    and sep: "distinct (a # addrs_items kas @ b # addrs (TDict b' bs) @ addrs_items kbs)"
    and fu: "depth (TDict b' bs) \<le> fuel"
    by (simp_all add: merge_pre_def del: repr_TDict addrs_TDict depth_TDict)
  from fu obtain m where fuel: "fuel = Suc m" and dm: "depth_items bs \<le> m"
    by (cases fuel) auto
  from map_of_repr [OF ra m] have rta: "repr h (TDict a' as)" .
  have sub: "set (addrs (TDict a' as)) \<subseteq> set (addrs_items kas)" using m by (rule map_of_addrs_subset)
  have "distinct (addrs_items kas)" using sep by simp
  with m have da: "distinct (addrs (TDict a' as))" by (rule map_of_addrs_distinct)
  have mb: "\<forall>kt\<in>set bs. map_of (h ! b') (fst kt) = Some (root (snd kt))"
  proof
    fix kt assume kt: "kt \<in> set bs"
    from rtb have d: "distinct (map fst bs)" by simp
    from kt have "(fst kt, snd kt) \<in> set bs" by simp
    with d have ms: "map_of bs (fst kt) = Some (snd kt)" by (rule map_of_is_SomeI)
    from rtb have "h ! b' = entries bs" by simp
    with ms show "map_of (h ! b') (fst kt) = Some (root (snd kt))" by (simp add: map_of_entries)
  qed
  have "distinct (a' # addrs_items as @ b' # addrs_items bs)"
  proof -
    have "\<And>x. x \<in> set (addrs (TDict a' as)) \<Longrightarrow> x \<notin> set (addrs (TDict b' bs))"
      using sub sep by (auto simp del: addrs_TDict)
    moreover have "distinct (addrs (TDict b' bs))" using sep by (simp del: addrs_TDict)
    ultimately show ?thesis using da by auto
  qed
  with rta rtb mb dm have "merge_pre h a' b' m as bs" by (simp add: merge_pre_def)
  with fuel show ?thesis by blast
qed

lemma descend_step:
  assumes pre: "merge_pre h a b fuel kas ((k, TDict b' bs) # kbs)"
    and m: "map_of kas k = Some (TDict a' as)"
    and post: "merge_post h a' as bs h1 as'"
  shows "length h \<le> length h1"
    and "h1 ! a = entries (AList.update k (TDict a' as') kas)"
    and "repr h1 (TDict a' as')"
    and "\<And>p. p < length h \<Longrightarrow> p \<noteq> a \<Longrightarrow> p \<notin> set (addrs (TDict a' as)) \<Longrightarrow> h1 ! p = h ! p"
    and "distinct (addrs (TDict a' as'))"
    and "set (addrs (TDict a' as')) \<subseteq>
           set (addrs (TDict a' as)) \<union> set (addrs (TDict b' bs)) \<union> {length h..<length h1}"
proof -
  from pre have a: "a < length h" and ha: "h ! a = entries kas" and ra: "repr_items h kas"
    and sep: "distinct (a # addrs_items kas @ b # addrs (TDict b' bs) @ addrs_items kbs)"
    by (simp_all add: merge_pre_def del: addrs_TDict)
  from post have len: "length h \<le> length h1" and h1a': "h1 ! a' = entries as'"
    and dk: "distinct (map fst as')" and ri: "repr_items h1 as'"
    and fi: "\<And>p. p < length h \<Longrightarrow> p \<noteq> a' \<Longrightarrow> p \<notin> set (touched as bs) \<Longrightarrow> h1 ! p = h ! p"
    and di: "distinct (addrs_items as')"
    and si: "set (addrs_items as') \<subseteq> set (addrs_items as) \<union> set (addrs_items bs) \<union> {length h..<length h1}"
    by (simp_all add: merge_post_def)
  from map_of_repr [OF ra m] have rta: "repr h (TDict a' as)" .
  then have a': "a' < length h" by simp
  have sub: "set (addrs (TDict a' as)) \<subseteq> set (addrs_items kas)" using m by (rule map_of_addrs_subset)
  have "distinct (addrs_items kas)" using sep by simp
  with m have da: "distinct (addrs (TDict a' as))" by (rule map_of_addrs_distinct)
  show "length h \<le> length h1" by (rule len)
  show fr: "\<And>p. p < length h \<Longrightarrow> p \<noteq> a \<Longrightarrow> p \<notin> set (addrs (TDict a' as)) \<Longrightarrow> h1 ! p = h ! p"
  proof -
    fix p assume p: "p < length h" "p \<noteq> a" "p \<notin> set (addrs (TDict a' as))"
    then have "p \<noteq> a'" "p \<notin> set (touched as bs)" using touched_subset [of as bs] by auto
    with p(1) show "h1 ! p = h ! p" by (intro fi)
  qed
  have ana: "a \<notin> set (addrs (TDict a' as))" using sub sep by (auto simp del: addrs_TDict)
  have "h1 ! a = h ! a"
  proof (rule fi [OF a])
    show "a \<noteq> a'" using ana by simp
    show "a \<notin> set (touched as bs)" using ana touched_subset [of as bs] by auto
  qed
  moreover have "map_of (entries kas) k = Some (Ref a')" using m by (simp add: map_of_entries)
  ultimately show "h1 ! a = entries (AList.update k (TDict a' as') kas)"
    using ha by (simp add: entries_update update_triv)
  show "repr h1 (TDict a' as')" using a' len h1a' dk ri by simp
  have "a' \<in> set (addrs_items kas)" using sub by simp
  then have nb: "a' \<notin> set (addrs_items bs)" using sep by auto
  have "a' \<notin> set (addrs_items as')"
  proof
    assume "a' \<in> set (addrs_items as')"
    with si have "a' \<in> set (addrs_items as) \<or> a' \<in> set (addrs_items bs) \<or> length h \<le> a'" by auto
    with da nb a' show False by auto
  qed
  with di show "distinct (addrs (TDict a' as'))" by simp
  show "set (addrs (TDict a' as')) \<subseteq>
      set (addrs (TDict a' as)) \<union> set (addrs (TDict b' bs)) \<union> {length h..<length h1}"
    using si by auto
qed

declare merge_keys.simps [simp del]

lemma merge_keys_sim:
  assumes "merge_items le rc path n kas kbs = (res, kas', n')"
    and "n = length h" and "merge_pre h a b fuel kas (kbs @ rest)"
  shows "\<exists>h'. merge_keys le fuel (map fst kbs) h a b rc path = Some (case res of Inl e \<Rightarrow> Inl e | Inr u \<Rightarrow> Inr a, h')
           \<and> length h' = n' \<and> merge_post h a kas kbs h' kas'
           \<and> (res = Inr () \<longrightarrow> merge_pre h' a b fuel kas' rest)"
  using assms
proof (induction arbitrary: h a b fuel rest rule: merge_items_rule)
  case (Nil le rc path n kas)
  then show ?case by (simp add: post_refl merge_keys.simps)
next
  case (Insert le rc path n kas k tb kbs t' n1 res kas' n')
  note n = Insert.prems(1)
  from Insert.prems(2) have pre: "merge_pre h a b fuel kas ((k, tb) # (kbs @ rest))" by simp
  then have kk: "k \<notin> fst ` set kbs" by (simp add: merge_pre_def)
  from pre have pre0: "merge_pre h a b fuel kas ((k, tb) # kbs)"
    using pre_prefix [of h a b fuel kas "(k, tb) # kbs" rest] by simp
  from pre0 have a: "a < length h" and ha: "h ! a = entries kas"
    and mb: "map_of (h ! b) k = Some (root tb)" and rtb: "repr h tb"
    and fu: "depth tb \<le> fuel"
    by (simp_all add: merge_pre_def)
  have ma: "map_of (h ! a) k = None" using ha Insert.hyps(1) by (simp add: map_of_entries)
  have "\<exists>h0. length h0 = n1 \<and> (\<forall>q<length h. h0 ! q = h ! q) \<and> repr h0 t'
      \<and> merge_keys le fuel (map fst ((k, tb) # kbs)) h a b rc path
        = merge_keys le fuel (map fst kbs) (setitem h0 a k (root t')) a b rc path"
  proof (cases tb)
    case (TLeaf x)
    with Insert.hyps(2) have "t' = TLeaf x" "n1 = n" by (simp_all add: copy_tree_def)
    moreover have "merge_keys le fuel (map fst ((k, tb) # kbs)) h a b rc path
        = merge_keys le fuel (map fst kbs) (setitem h a k (Leaf x)) a b rc path"
      using mb ma TLeaf by (simp del: merge_keys.simps add: merge_keys_insert_leaf)
    ultimately show ?thesis using n by auto
  next
    case (TDict b' bs)
    with Insert.hyps(2) obtain cs' where c: "copy_tree_items (Suc n) bs = (cs', n1)"
      and t': "t' = TDict n cs'"
      by (auto simp: copy_tree_def split: prod.splits)
    from deepcopy_sim [OF rtb [unfolded TDict] fu [unfolded TDict] c [unfolded n]]
    obtain h0 where h0: "deepcopy fuel h b' = Some (h0, length h)" "length h0 = n1"
      "repr h0 (TDict (length h) cs')" "\<forall>q<length h. h0 ! q = h ! q"
      by blast
    have "merge_keys le fuel (map fst ((k, tb) # kbs)) h a b rc path
        = merge_keys le fuel (map fst kbs) (setitem h0 a k (Ref (length h))) a b rc path"
      using mb ma TDict h0(1) by (simp del: merge_keys.simps add: merge_keys_insert_dict)
    with h0 t' n show ?thesis by auto
  qed
  then obtain h0 where h0: "length h0 = n1" "\<forall>q<length h. h0 ! q = h ! q" "repr h0 t'"
    and run: "merge_keys le fuel (map fst ((k, tb) # kbs)) h a b rc path
        = merge_keys le fuel (map fst kbs) (setitem h0 a k (root t')) a b rc path"
    by blast
  let ?h1 = "setitem h0 a k (root t')"
  have nn: "n \<le> n1" using Insert.hyps(2) by (rule copy_tree_mono)
  have at: "addrs t' = [n..<n1]" using Insert.hyps(2) by (rule copy_tree_addrs)
  have len: "length h \<le> length ?h1" using h0(1) nn n by simp
  have h1a: "?h1 ! a = entries (AList.update k t' kas)"
    using a h0 nn n ha by (simp add: nth_setitem_same entries_update)
  have rt1: "repr ?h1 t'"
  proof (rule repr_frame [OF h0(3)])
    show "length h0 \<le> length ?h1" by simp
  next
    fix p assume "p \<in> set (addrs t')"
    with at a n have "p \<noteq> a" by auto
    then show "?h1 ! p = h0 ! p" by (rule nth_setitem_other)
  qed
  have fr: "\<And>p. p < length h \<Longrightarrow> p \<noteq> a \<Longrightarrow> p \<notin> {} \<Longrightarrow> ?h1 ! p = h ! p"
    using h0(2) by (simp add: nth_setitem_other)
  have dt1: "distinct (addrs t')" using at by simp
  have st1: "set (addrs t') \<subseteq> {} \<union> set (addrs tb) \<union> {length h..<length ?h1}"
    using at h0(1) n by simp
  have D: "{} = (case map_of kas k of None \<Rightarrow> {} | Some t \<Rightarrow> set (addrs t))"
    using Insert.hyps(1) by simp
  have pre1: "merge_pre ?h1 a b fuel (AList.update k t' kas) (kbs @ rest)"
    using pre len h1a rt1 fr dt1 st1 D by (rule pre_step)
  have n1: "n1 = length ?h1" using h0(1) by simp
  from Insert.IH [OF n1 pre1] obtain h' where
    h': "merge_keys le fuel (map fst kbs) ?h1 a b rc path = Some (case res of Inl e \<Rightarrow> Inl e | Inr u \<Rightarrow> Inr a, h')"
      "length h' = n'" "merge_post ?h1 a (AList.update k t' kas) kbs h' kas'"
      "res = Inr () \<longrightarrow> merge_pre h' a b fuel kas' rest"
    by blast
  have "merge_post h a kas ((k, tb) # kbs) h' kas'"
    using kk len fr st1 D h'(3) by (rule post_step)
  with run h'(1,2,4) show ?case by auto
next
  case (Equal le rc path n kas k ta tb kbs res kas' n')
  note n = Equal.prems(1)
  from Equal.prems(2) have pre: "merge_pre h a b fuel kas ((k, tb) # (kbs @ rest))" by simp
  then have kk: "k \<notin> fst ` set kbs" by (simp add: merge_pre_def)
  from pre have pre0: "merge_pre h a b fuel kas ((k, tb) # kbs)"
    using pre_prefix [of h a b fuel kas "(k, tb) # kbs" rest] by simp
  from pre0 have ha: "h ! a = entries kas" and mb: "map_of (h ! b) k = Some (root tb)"
    by (simp_all add: merge_pre_def)
  have ma: "map_of (h ! a) k = Some (root ta)" using ha Equal.hyps(1) by (simp add: map_of_entries)
  have run: "merge_keys le fuel (map fst ((k, tb) # kbs)) h a b rc path
      = merge_keys le fuel (map fst kbs) h a b rc path"
    using merge_keys_nondict [OF mb ma root_not_both [OF Equal.hyps(2)]] Equal.hyps(3)
    by (simp del: merge_keys.simps)
  from Equal.IH [OF n pre_tail [OF pre]] obtain h' where
    h': "merge_keys le fuel (map fst kbs) h a b rc path = Some (case res of Inl e \<Rightarrow> Inl e | Inr u \<Rightarrow> Inr a, h')"
      "length h' = n'" "merge_post h a kas kbs h' kas'"
      "res = Inr () \<longrightarrow> merge_pre h' a b fuel kas' rest"
    by blast
  from h'(3) have "merge_post h a kas ((k, tb) # kbs) h' kas'" by (rule post_tail)
  with run h'(1,2,4) show ?case by auto
next
  case (Conflict le rc path n kas k ta tb kbs)
  note n = Conflict.prems(1)
  from Conflict.prems(2) have pre: "merge_pre h a b fuel kas ((k, tb) # (kbs @ rest))" by simp
  then have kk: "k \<notin> fst ` set kbs" by (simp add: merge_pre_def)
  from pre have pre0: "merge_pre h a b fuel kas ((k, tb) # kbs)"
    using pre_prefix [of h a b fuel kas "(k, tb) # kbs" rest] by simp
  from pre0 have ha: "h ! a = entries kas" and mb: "map_of (h ! b) k = Some (root tb)"
    by (simp_all add: merge_pre_def)
  have ma: "map_of (h ! a) k = Some (root ta)" using ha Conflict.hyps(1) by (simp add: map_of_entries)
  have run: "merge_keys le fuel (map fst ((k, tb) # kbs)) h a b rc path
      = Some (Inl (LookupError (conflict_msg (path @ [k]))), h)"
    using merge_keys_nondict [OF mb ma root_not_both [OF Conflict.hyps(2)]] Conflict.hyps(3,4)
    by (simp del: merge_keys.simps)
  from pre0 have "merge_post h a kas ((k, tb) # kbs) h kas" by (rule post_refl)
  with run n show ?case by simp
next
  case (Overwrite le rc path n kas k ta tb kbs res kas' n')
  note n = Overwrite.prems(1)
  from Overwrite.prems(2) have pre: "merge_pre h a b fuel kas ((k, tb) # (kbs @ rest))" by simp
  then have kk: "k \<notin> fst ` set kbs" by (simp add: merge_pre_def)
  from pre have pre0: "merge_pre h a b fuel kas ((k, tb) # kbs)"
    using pre_prefix [of h a b fuel kas "(k, tb) # kbs" rest] by simp
  from pre0 have a: "a < length h" and ha: "h ! a = entries kas"
    and mb: "map_of (h ! b) k = Some (root tb)" and rtb: "repr h tb"
    and sep: "distinct (a # addrs_items kas @ b # addrs tb @ addrs_items kbs)"
    by (simp_all add: merge_pre_def)
  have ma: "map_of (h ! a) k = Some (root ta)" using ha Overwrite.hyps(1) by (simp add: map_of_entries)
  let ?h1 = "setitem h a k (root tb)"
  have run: "merge_keys le fuel (map fst ((k, tb) # kbs)) h a b rc path
      = merge_keys le fuel (map fst kbs) ?h1 a b rc path"
    using merge_keys_nondict [OF mb ma root_not_both [OF Overwrite.hyps(2)]] Overwrite.hyps(3,4)
    by (simp del: merge_keys.simps)
  have len: "length h \<le> length ?h1" by simp
  have h1a: "?h1 ! a = entries (AList.update k tb kas)"
    using a ha by (simp add: nth_setitem_same entries_update)
  have rt1: "repr ?h1 tb"
  proof (rule repr_frame [OF rtb len])
    fix p assume "p \<in> set (addrs tb)"
    with sep have "p \<noteq> a" by auto
    then show "?h1 ! p = h ! p" by (rule nth_setitem_other)
  qed
  have fr: "\<And>p. p < length h \<Longrightarrow> p \<noteq> a \<Longrightarrow> p \<notin> set (addrs ta) \<Longrightarrow> ?h1 ! p = h ! p"
    by (simp add: nth_setitem_other)
  have dt1: "distinct (addrs tb)" using sep by simp
  have st1: "set (addrs tb) \<subseteq> set (addrs ta) \<union> set (addrs tb) \<union> {length h..<length ?h1}"
    by auto
  have D: "set (addrs ta) = (case map_of kas k of None \<Rightarrow> {} | Some t \<Rightarrow> set (addrs t))"
    using Overwrite.hyps(1) by simp
  have pre1: "merge_pre ?h1 a b fuel (AList.update k tb kas) (kbs @ rest)"
    using pre len h1a rt1 fr dt1 st1 D by (rule pre_step)
  have n1: "n = length ?h1" using n by simp
  from Overwrite.IH [OF n1 pre1] obtain h' where
    h': "merge_keys le fuel (map fst kbs) ?h1 a b rc path = Some (case res of Inl e \<Rightarrow> Inl e | Inr u \<Rightarrow> Inr a, h')"
      "length h' = n'" "merge_post ?h1 a (AList.update k tb kas) kbs h' kas'"
      "res = Inr () \<longrightarrow> merge_pre h' a b fuel kas' rest"
    by blast
  have "merge_post h a kas ((k, tb) # kbs) h' kas'"
    using kk len fr st1 D h'(3) by (rule post_step)
  with run h'(1,2,4) show ?case by auto
next
  case (Descend_fail le rc path n kas k a' as b' bs kbs e as' n1)
  note n = Descend_fail.prems(1)
  from Descend_fail.prems(2) have pre: "merge_pre h a b fuel kas ((k, TDict b' bs) # (kbs @ rest))" by simp
  then have kk: "k \<notin> fst ` set kbs" by (simp add: merge_pre_def)
  from pre have pre0: "merge_pre h a b fuel kas ((k, TDict b' bs) # kbs)"
    using pre_prefix [of h a b fuel kas "(k, TDict b' bs) # kbs" rest] by simp
  note m = Descend_fail.hyps(1)
  from pre0 have ha: "h ! a = entries kas" and mb: "map_of (h ! b) k = Some (Ref b')"
    and rtb: "repr h (TDict b' bs)"
    by (simp_all add: merge_pre_def)
  have ma: "map_of (h ! a) k = Some (Ref a')" using ha m by (simp add: map_of_entries)
  from pre_inner [OF pre m] obtain f where fuel: "fuel = Suc f" and prei: "merge_pre h a' b' f as (bs @ [])"
    by auto
  from prei have a': "a' < length h" and b': "b' < length h" by (simp_all add: merge_pre_def)
  from rtb have hb': "map fst (h ! b') = map fst bs" by simp
  from Descend_fail.IH [OF n prei] obtain h1 where
    h1: "merge_keys le f (map fst bs) h a' b' rc (path @ [k]) = Some (Inl e, h1)"
      "length h1 = n1" "merge_post h a' as bs h1 as'"
    by auto
  have run: "merge_keys le fuel (map fst ((k, TDict b' bs) # kbs)) h a b rc path = Some (Inl e, h1)"
    using merge_keys_descend [OF mb ma a' b', of le f "map fst kbs" rc path] h1(1) hb' fuel
    by (simp del: merge_keys.simps)
  note st = descend_step [OF pre m h1(3)]
  have D: "set (addrs (TDict a' as)) = (case map_of kas k of None \<Rightarrow> {} | Some t \<Rightarrow> set (addrs t))"
    using m by simp
  have pre1: "merge_pre h1 a b fuel (AList.update k (TDict a' as') kas) (kbs @ rest)"
    using pre st(1,2,3,4,5,6) D by (rule pre_step)
  then have "merge_post h1 a (AList.update k (TDict a' as') kas) kbs h1 (AList.update k (TDict a' as') kas)"
    by (rule post_refl)
  with kk st(1,4,6) D
  have "merge_post h a kas ((k, TDict b' bs) # kbs) h1 (AList.update k (TDict a' as') kas)"
    by (rule post_step)
  with run h1(2) show ?case by simp
next
  case (Descend le rc path n kas k a' as b' bs kbs as' n1 res kas' n')
  note n = Descend.prems(1)
  from Descend.prems(2) have pre: "merge_pre h a b fuel kas ((k, TDict b' bs) # (kbs @ rest))" by simp
  then have kk: "k \<notin> fst ` set kbs" by (simp add: merge_pre_def)
  from pre have pre0: "merge_pre h a b fuel kas ((k, TDict b' bs) # kbs)"
    using pre_prefix [of h a b fuel kas "(k, TDict b' bs) # kbs" rest] by simp
  note m = Descend.hyps(1)
  from pre0 have ha: "h ! a = entries kas" and mb: "map_of (h ! b) k = Some (Ref b')"
    and rtb: "repr h (TDict b' bs)"
    by (simp_all add: merge_pre_def)
  have ma: "map_of (h ! a) k = Some (Ref a')" using ha m by (simp add: map_of_entries)
  from pre_inner [OF pre m] obtain f where fuel: "fuel = Suc f" and prei: "merge_pre h a' b' f as (bs @ [])"
    by auto
  from prei have a': "a' < length h" and b': "b' < length h" by (simp_all add: merge_pre_def)
  from rtb have hb': "map fst (h ! b') = map fst bs" by simp
  from Descend.IH(1) [OF n prei] obtain h1 where
    h1: "merge_keys le f (map fst bs) h a' b' rc (path @ [k]) = Some (Inr a', h1)"
      "length h1 = n1" "merge_post h a' as bs h1 as'"
    by auto
  have run: "merge_keys le fuel (map fst ((k, TDict b' bs) # kbs)) h a b rc path
      = merge_keys le fuel (map fst kbs) h1 a b rc path"
    using merge_keys_descend [OF mb ma a' b', of le f "map fst kbs" rc path] h1(1) hb' fuel
    by (simp del: merge_keys.simps)
  note st = descend_step [OF pre m h1(3)]
  have D: "set (addrs (TDict a' as)) = (case map_of kas k of None \<Rightarrow> {} | Some t \<Rightarrow> set (addrs t))"
    using m by simp
  have pre1: "merge_pre h1 a b fuel (AList.update k (TDict a' as') kas) (kbs @ rest)"
    using pre st(1,2,3,4,5,6) D by (rule pre_step)
  from Descend.IH(2) [OF h1(2) [symmetric] pre1] obtain h' where
    h': "merge_keys le fuel (map fst kbs) h1 a b rc path = Some (case res of Inl e \<Rightarrow> Inl e | Inr u \<Rightarrow> Inr a, h')"
      "length h' = n'" "merge_post h1 a (AList.update k (TDict a' as') kas) kbs h' kas'"
      "res = Inr () \<longrightarrow> merge_pre h' a b fuel kas' rest"
    by blast
  from kk st(1,4,6) D h'(3)
  have "merge_post h a kas ((k, TDict b' bs) # kbs) h' kas'"
    by (rule post_step)
  with run h'(1,2,4) show ?case by auto
qed

subsection \<open>Conflicts\<close>

lemma merge_items_untouched:
  assumes "merge_items le rc path n kas kbs = (res, kas', n')" and "k \<notin> fst ` set kbs"
  shows "map_of kas' k = map_of kas k"
  using assms
  by (induction rule: merge_items_rule) (auto simp: update_conv')

lemma conflict_at_Cons:
  "k \<notin> fst ` set kbs \<Longrightarrow>
   conflict_at le kas ((k, tb) # kbs) p =
     (if p \<noteq> [] \<and> hd p = k then conflict_at le kas [(k, tb)] p else conflict_at le kas kbs p)"
  by (cases p) (auto split: option.splits)

lemma conflict_at_not_key:
  "k \<notin> fst ` set kbs \<Longrightarrow> conflict_at le kas kbs p \<Longrightarrow> p \<noteq> [] \<and> hd p \<noteq> k"
  by (cases p) (auto split: option.splits dest: map_of_SomeD simp: rev_image_eqI)

lemma conflict_at_update:
  "k \<notin> fst ` set kbs \<Longrightarrow> conflict_at le (AList.update k t kas) kbs p = conflict_at le kas kbs p"
proof (cases p)
  case Nil
  then show ?thesis by simp
next
  case (Cons k' p')
  assume k: "k \<notin> fst ` set kbs"
  show ?thesis
  proof (cases "k' = k")
    case True
    from k have "map_of kbs k = None" by (simp add: map_of_eq_None_iff)
    with True Cons show ?thesis by (simp split: option.splits)
  next
    case False
    with Cons show ?thesis by (simp add: update_conv')
  qed
qed

declare conflict_at.simps [simp del]

lemma conflict_at_step:
  assumes kk: "k \<notin> fst ` set kbs" and head: "\<And>p'. \<not> conflict_at le kas [(k, tb)] (k # p')"
  shows "conflict_at le kas ((k, tb) # kbs) p = conflict_at le (AList.update k t kas) kbs p"
    and "conflict_at le kas ((k, tb) # kbs) p = conflict_at le kas kbs p"
proof -
  show 2: "conflict_at le kas ((k, tb) # kbs) p = conflict_at le kas kbs p"
  proof (cases "p \<noteq> [] \<and> hd p = k")
    case True
    then obtain p' where p: "p = k # p'" by (cases p) auto
    have "\<not> conflict_at le kas kbs p" using conflict_at_not_key [OF kk, of le kas p] True by auto
    moreover have "\<not> conflict_at le kas ((k, tb) # kbs) p"
      using head [of p'] p by (simp add: conflict_at_Cons [OF kk])
    ultimately show ?thesis by simp
  next
    case False
    then show ?thesis by (auto simp: conflict_at_Cons [OF kk])
  qed
  then show "conflict_at le kas ((k, tb) # kbs) p = conflict_at le (AList.update k t kas) kbs p"
    by (simp add: conflict_at_update [OF kk])
qed

lemma merge_items_conflict:
  assumes "merge_items le rc path n kas kbs = (res, kas', n')"
    and "repr_items h kbs" and "distinct (map fst kbs)"
  shows "case res of
           Inl e \<Rightarrow> rc \<and> (\<exists>p. conflict_at le kas kbs p \<and> e = LookupError (conflict_msg (path @ p)))
         | Inr u \<Rightarrow> rc \<longrightarrow> (\<forall>p. \<not> conflict_at le kas kbs p)"
  using assms
proof (induction rule: merge_items_rule)
  case (Nil le rc path n kas)
  have "\<And>p. \<not> conflict_at le kas [] p"
  proof -
    fix p show "\<not> conflict_at le kas [] p" by (cases p) (auto simp: conflict_at.simps split: option.splits)
  qed
  then show ?case by simp
next
  case (Insert le rc path n kas k tb kbs t' n1 res kas' n')
  from Insert.prems have kk: "k \<notin> fst ` set kbs" and r: "repr_items h kbs" and d: "distinct (map fst kbs)"
    by simp_all
  have head: "\<And>p'. \<not> conflict_at le kas [(k, tb)] (k # p')"
    using Insert.hyps(1) by (simp add: conflict_at.simps)
  have eq: "\<And>p. conflict_at le kas ((k, tb) # kbs) p = conflict_at le (AList.update k t' kas) kbs p"
    using kk head by (rule conflict_at_step(1))
  from Insert.IH [OF r d] show ?case by (cases res) (simp_all add: eq)
next
  case (Equal le rc path n kas k ta tb kbs res kas' n')
  from Equal.prems have kk: "k \<notin> fst ` set kbs" and r: "repr_items h kbs" and d: "distinct (map fst kbs)"
    by simp_all
  have head: "\<And>p'. \<not> conflict_at le kas [(k, tb)] (k # p')"
    using Equal.hyps(1,2,3) by (auto simp: conflict_at.simps)
  have eq: "\<And>p. conflict_at le kas ((k, tb) # kbs) p = conflict_at le kas kbs p"
    using kk head by (rule conflict_at_step(2))
  from Equal.IH [OF r d] show ?case by (cases res) (simp_all add: eq)
next
  case (Conflict le rc path n kas k ta tb kbs)
  have "conflict_at le kas ((k, tb) # kbs) [k]" using Conflict.hyps(1,2,3) by (auto simp: conflict_at.simps)
  with Conflict.hyps(4) show ?case by auto
next
  case (Overwrite le rc path n kas k ta tb kbs res kas' n')
  from Overwrite.prems have r: "repr_items h kbs" and d: "distinct (map fst kbs)"
    by simp_all
  from Overwrite.IH [OF r d] Overwrite.hyps(4) show ?case by (cases res) auto
next
  case (Descend_fail le rc path n kas k a' as b' bs kbs e as' n1)
  from Descend_fail.prems have r: "repr_items h bs" and d: "distinct (map fst bs)"
    by simp_all
  from Descend_fail.IH [OF r d] obtain p where rc: rc and p: "conflict_at le as bs p"
    and e: "e = LookupError (conflict_msg ((path @ [k]) @ p))"
    by auto
  have "conflict_at le kas ((k, TDict b' bs) # kbs) (k # p)"
    using Descend_fail.hyps(1) p by (simp add: conflict_at.simps)
  with rc e show ?case by auto
next
  case (Descend le rc path n kas k a' as b' bs kbs as' n1 res kas' n')
  from Descend.prems have kk: "k \<notin> fst ` set kbs" and r: "repr_items h kbs" and d: "distinct (map fst kbs)"
    and ri: "repr_items h bs" and di: "distinct (map fst bs)"
    by simp_all
  from Descend.IH(1) [OF ri di] have inner: "rc \<longrightarrow> (\<forall>p. \<not> conflict_at le as bs p)" by simp
  have eq: "\<And>p. rc \<Longrightarrow> conflict_at le kas ((k, TDict b' bs) # kbs) p
      = conflict_at le (AList.update k (TDict a' as') kas) kbs p"
  proof -
    fix p assume rc
    with inner have head: "\<And>p'. \<not> conflict_at le kas [(k, TDict b' bs)] (k # p')"
      using Descend.hyps(1) by (simp add: conflict_at.simps)
    from kk head show "conflict_at le kas ((k, TDict b' bs) # kbs) p
      = conflict_at le (AList.update k (TDict a' as') kas) kbs p" by (rule conflict_at_step(1))
  qed
  from Descend.IH(2) [OF r d] show ?case by (cases res) (auto simp: eq)
qed

lemma disjoint_trees_pre:
  assumes "disjoint_trees h (TDict a kas) (TDict b kbs)" and "depth (TDict b kbs) \<le> Suc m"
  shows "merge_pre h a b m kas (kbs @ [])"
proof -
  from assms(1) have ra: "repr h (TDict a kas)" and rb: "repr h (TDict b kbs)"
    and sep: "distinct (addrs (TDict a kas) @ addrs (TDict b kbs))"
    by (simp_all add: disjoint_trees_def del: repr_TDict addrs_TDict)
  have mb: "\<forall>kt\<in>set kbs. map_of (h ! b) (fst kt) = Some (root (snd kt))"
  proof
    fix kt assume kt: "kt \<in> set kbs"
    from rb have d: "distinct (map fst kbs)" by simp
    from kt have "(fst kt, snd kt) \<in> set kbs" by simp
    with d have ms: "map_of kbs (fst kt) = Some (snd kt)" by (rule map_of_is_SomeI)
    from rb have "h ! b = entries kbs" by simp
    with ms show "map_of (h ! b) (fst kt) = Some (root (snd kt))" by (simp add: map_of_entries)
  qed
  from ra rb sep mb assms(2) show ?thesis by (simp add: merge_pre_def)
qed

lemma merge_dicts_sim:
  assumes dj: "disjoint_trees h (TDict a kas) (TDict b kbs)" and fu: "depth (TDict b kbs) \<le> fuel"
    and run: "merge_items le rc path (length h) kas kbs = (res, kas', n')"
  shows "\<exists>h'. merge_dicts le fuel h a b rc path = Some (case res of Inl e \<Rightarrow> Inl e | Inr u \<Rightarrow> Inr a, h')
           \<and> length h' = n' \<and> merge_post h a kas kbs h' kas'"
proof -
  from fu obtain m where fuel: "fuel = Suc m" by (cases fuel) auto
  with dj fu have pre: "merge_pre h a b m kas (kbs @ [])" by (intro disjoint_trees_pre) simp_all
  from dj have ab: "a < length h" "b < length h" "map fst (h ! b) = map fst kbs"
    by (simp_all add: disjoint_trees_def)
  from merge_keys_sim [OF run refl pre] obtain h' where
    "merge_keys le m (map fst kbs) h a b rc path = Some (case res of Inl e \<Rightarrow> Inl e | Inr u \<Rightarrow> Inr a, h')"
    "length h' = n'" "merge_post h a kas kbs h' kas'"
    by blast
  with ab fuel show ?thesis by (simp add: merge_dicts_def)
qed

subsection \<open>Entries of the result\<close>

lemma merge_items_no_raise:
  assumes "merge_items le rc path n kas kbs = (res, kas', n')" and "\<not> rc"
  shows "res = Inr ()"
  using assms
  by (induction rule: merge_items_rule) auto

lemma merge_items_entry_equal:
  assumes "merge_items le rc path n kas kbs = (res, kas', n')"
    and "distinct (map fst kbs)" and "map_of kbs k = Some tb" and "map_of kas k = Some ta"
    and "\<not> (is_dict ta \<and> is_dict tb)" and "py_eq le (root ta) (root tb)"
  shows "map_of kas' k = Some ta"
  using assms
proof (induction rule: merge_items_rule)
  case (Nil le rc path n kas)
  then show ?case by simp
next
  case (Insert le rc path n kas k0 tb0 kbs t' n1 res kas' n')
  then show ?case by (auto simp: update_conv' split: if_splits)
next
  case (Equal le rc path n kas k0 ta0 tb0 kbs res kas' n')
  show ?case
  proof (cases "k0 = k")
    case True
    with Equal.prems have "k \<notin> fst ` set kbs" by simp
    from merge_items_untouched [OF Equal.hyps(4) this] Equal.prems show ?thesis by simp
  next
    case False
    with Equal.IH Equal.prems show ?thesis by simp
  qed
next
  case (Conflict le rc path n kas k0 ta0 tb0 kbs)
  then show ?case by simp
next
  case (Overwrite le rc path n kas k0 ta0 tb0 kbs res kas' n')
  then show ?case by (auto simp: update_conv' split: if_splits)
next
  case (Descend_fail le rc path n kas k0 a' as b' bs kbs e as' n1)
  then show ?case by (auto simp: update_conv' split: if_splits)
next
  case (Descend le rc path n kas k0 a' as b' bs kbs as' n1 res kas' n')
  then show ?case by (auto simp: update_conv' split: if_splits)
qed

lemma merge_items_entry_overwrite:
  assumes "merge_items le rc path n kas kbs = (res, kas', n')"
    and "distinct (map fst kbs)" and "map_of kbs k = Some tb" and "map_of kas k = Some ta"
    and "\<not> (is_dict ta \<and> is_dict tb)" and "\<not> py_eq le (root ta) (root tb)" and "\<not> rc"
  shows "map_of kas' k = Some tb"
  using assms
proof (induction rule: merge_items_rule)
  case (Nil le rc path n kas)
  then show ?case by simp
next
  case (Insert le rc path n kas k0 tb0 kbs t' n1 res kas' n')
  then show ?case by (auto simp: update_conv' split: if_splits)
next
  case (Equal le rc path n kas k0 ta0 tb0 kbs res kas' n')
  then show ?case by (auto simp: update_conv' split: if_splits)
next
  case (Conflict le rc path n kas k0 ta0 tb0 kbs)
  then show ?case by simp
next
  case (Overwrite le rc path n kas k0 ta0 tb0 kbs res kas' n')
  show ?case
  proof (cases "k0 = k")
    case True
    with Overwrite.prems have "k \<notin> fst ` set kbs" and "tb0 = tb" by simp_all
    with merge_items_untouched [OF Overwrite.hyps(5), of k] True show ?thesis
      by (simp add: update_conv')
  next
    case False
    with Overwrite.IH Overwrite.prems show ?thesis by (simp add: update_conv')
  qed
next
  case (Descend_fail le rc path n kas k0 a' as b' bs kbs e as' n1)
  from merge_items_no_raise [OF Descend_fail.hyps(2)] Descend_fail.prems show ?case by simp
next
  case (Descend le rc path n kas k0 a' as b' bs kbs as' n1 res kas' n')
  show ?case
  proof (cases "k0 = k")
    case True
    with Descend.hyps(1) Descend.prems show ?thesis by auto
  next
    case False
    with Descend.IH(2) Descend.prems show ?thesis by (simp add: update_conv')
  qed
qed

lemma merge_items_entry_insert:
  assumes "merge_items le rc path n kas kbs = (res, kas', n')"
    and "distinct (map fst kbs)" and "map_of kbs k = Some tb" and "map_of kas k = None"
  shows "(\<exists>n1 n2 t'. n \<le> n1 \<and> n2 \<le> n' \<and> copy_tree n1 tb = (t', n2) \<and> map_of kas' k = Some t')
       \<or> ((\<exists>e. res = Inl e) \<and> map_of kas' k = None)"
  using assms
proof (induction rule: merge_items_rule)
  case (Nil le rc path n kas)
  then show ?case by simp
next
  case (Insert le rc path n kas k0 tb0 kbs t' n1 res kas' n')
  show ?case
  proof (cases "k0 = k")
    case True
    with Insert.prems have kk: "k \<notin> fst ` set kbs" and tb: "tb0 = tb" by simp_all
    from merge_items_untouched [OF Insert.hyps(3) kk] True
    have "map_of kas' k = Some t'" by (simp add: update_conv')
    moreover have "n1 \<le> n'" using Insert.hyps(3) by (rule merge_items_mono)
    ultimately show ?thesis using Insert.hyps(2) tb True by blast
  next
    case False
    with Insert.prems have "distinct (map fst kbs)" "map_of kbs k = Some tb"
      "map_of (AList.update k0 t' kas) k = None"
      by (simp_all add: update_conv')
    from Insert.IH [OF this] copy_tree_mono [OF Insert.hyps(2)] show ?thesis
      by (meson le_trans)
  qed
next
  case (Equal le rc path n kas k0 ta0 tb0 kbs res kas' n')
  then show ?case by (auto split: if_splits)
next
  case (Conflict le rc path n kas k0 ta0 tb0 kbs)
  then show ?case by simp
next
  case (Overwrite le rc path n kas k0 ta0 tb0 kbs res kas' n')
  then have "k0 \<noteq> k" by auto
  with Overwrite.prems have "distinct (map fst kbs)" "map_of kbs k = Some tb"
    "map_of (AList.update k0 tb0 kas) k = None"
    by (simp_all add: update_conv')
  from Overwrite.IH [OF this] show ?case .
next
  case (Descend_fail le rc path n kas k0 a' as b' bs kbs e as' n1)
  then have "k0 \<noteq> k" by auto
  with Descend_fail.prems show ?case by (simp add: update_conv')
next
  case (Descend le rc path n kas k0 a' as b' bs kbs as' n1 res kas' n')
  then have "k0 \<noteq> k" by auto
  with Descend.prems have "distinct (map fst kbs)" "map_of kbs k = Some tb"
    "map_of (AList.update k0 (TDict a' as') kas) k = None"
    by (simp_all add: update_conv')
  from Descend.IH(2) [OF this] merge_items_mono [OF Descend.hyps(2)] show ?case
    by (meson le_trans)
qed

lemma getitem_repr: "repr h (TDict a kas) \<Longrightarrow> getitem h a k = map_option root (map_of kas k)"
  by (simp add: getitem_def map_of_entries)

lemma getitem_post: "merge_post h a kas kbs h' kas' \<Longrightarrow> getitem h' a k = map_option root (map_of kas' k)"
  by (simp add: getitem_def merge_post_def map_of_entries)

lemma is_dict_root: "is_dict t \<longleftrightarrow> (\<exists>p. root t = Ref p)"
  by (cases t) simp_all

lemma merge_post_source:
  assumes dj: "disjoint_trees h (TDict a kas) (TDict b kbs)" and post: "merge_post h a kas kbs h' kas'"
  shows "repr h' (TDict b kbs)" and "h' ! b = h ! b"
proof -
  from dj have rb: "repr h (TDict b kbs)" and ra: "repr h (TDict a kas)"
    and sep: "distinct (addrs (TDict a kas) @ addrs (TDict b kbs))"
    by (simp_all add: disjoint_trees_def del: repr_TDict addrs_TDict)
  from post have len: "length h \<le> length h'"
    and fr: "\<And>p. p < length h \<Longrightarrow> p \<noteq> a \<Longrightarrow> p \<notin> set (touched kas kbs) \<Longrightarrow> h' ! p = h ! p"
    by (simp_all add: merge_post_def)
  have same: "\<And>p. p \<in> set (addrs (TDict b kbs)) \<Longrightarrow> h' ! p = h ! p"
  proof -
    fix p assume p: "p \<in> set (addrs (TDict b kbs))"
    with rb have "p < length h" by (rule repr_addrs_lt)
    moreover from p sep have "p \<notin> set (addrs (TDict a kas))" by auto
    then have "p \<noteq> a" "p \<notin> set (touched kas kbs)" using touched_subset [of kas kbs] by auto
    ultimately show "h' ! p = h ! p" by (rule fr)
  qed
  from rb len same show "repr h' (TDict b kbs)" by (rule repr_frame)
  from same [of b] show "h' ! b = h ! b" by simp
qed

subsection \<open>Merging a second time\<close>

lemma absorbed_Cons_other:
  "k \<notin> fst ` set kbs \<Longrightarrow> absorbed le ((k, t) # kas) kbs = absorbed le kas kbs"
  by (induction le kas kbs rule: absorbed.induct) auto

lemma absorbed_map_of:
  "(\<And>k. k \<in> fst ` set kbs \<Longrightarrow> map_of kas k = map_of kas2 k) \<Longrightarrow>
   absorbed le kas kbs = absorbed le kas2 kbs"
proof (induction le kas kbs arbitrary: kas2 rule: absorbed.induct)
  case (1 le kas)
  then show ?case by simp
next
  case (2 le kas k y kbs)
  have "absorbed le kas kbs = absorbed le kas2 kbs" using "2.prems" by (intro "2.IH") simp
  moreover have "map_of kas k = map_of kas2 k" using "2.prems" by simp
  ultimately show ?case by simp
next
  case (3 le kas k b' bs kbs)
  have "absorbed le kas kbs = absorbed le kas2 kbs" using "3.prems" by (intro "3.IH"(2)) simp
  moreover have "map_of kas k = map_of kas2 k" using "3.prems" by simp
  ultimately show ?case by simp
qed

lemma absorbed_refl:
  "repr_items h kts \<Longrightarrow> distinct (map fst kts) \<Longrightarrow> absorbed le kts kts"
proof (induction kts rule: measure_induct_rule [where f = "size_list (size_prod (\<lambda>_. 0) size)"])
  case (less kts)
  show ?case
  proof (cases kts)
    case Nil
    then show ?thesis by simp
  next
    case (Cons kt rest)
    obtain k t where kt: "kt = (k, t)" by (cases kt)
    from less.prems Cons kt have kk: "k \<notin> fst ` set rest" and dr: "distinct (map fst rest)"
      and rr: "repr_items h rest" and rt: "repr h t"
      by auto
    have "absorbed le rest rest" using rr dr Cons by (intro less.IH) simp_all
    then have tail: "absorbed le ((k, t) # rest) rest" using kk by (simp add: absorbed_Cons_other)
    show ?thesis
    proof (cases t)
      case (TLeaf y)
      with tail Cons kt show ?thesis by simp
    next
      case (TDict p cs)
      with rt have "repr_items h cs" "distinct (map fst cs)" by simp_all
      then have "absorbed le cs cs" using Cons kt TDict by (intro less.IH) simp_all
      with tail Cons kt TDict show ?thesis by simp
    qed
  qed
qed

lemma absorbed_copy_items:
  "copy_tree_items n kts = (r, n') \<Longrightarrow> repr_items h kts \<Longrightarrow> distinct (map fst kts) \<Longrightarrow>
   absorbed le r kts"
proof (induction n kts arbitrary: r n' rule: copy_tree_items.induct)
  case (1 n)
  then show ?case by simp
next
  case (2 n k x kts)
  from "2.prems"(1) obtain r' where a: "copy_tree_items n kts = (r', n')" and r: "r = (k, TLeaf x) # r'"
    by (auto split: prod.splits)
  from "2.prems" have kk: "k \<notin> fst ` set kts" and p: "repr_items h kts" "distinct (map fst kts)"
    by simp_all
  from "2.IH" [OF a p] have "absorbed le r' kts" .
  with kk r show ?case by (simp add: absorbed_Cons_other)
next
  case (3 n k p cs kts)
  from "3.prems"(1) obtain cs' n1 r' where
    a: "copy_tree_items (Suc n) cs = (cs', n1)" and b: "copy_tree_items n1 kts = (r', n')"
    and r: "r = (k, TDict n cs') # r'"
    by (auto split: prod.splits)
  from "3.prems" have kk: "k \<notin> fst ` set kts" and pk: "repr_items h kts" "distinct (map fst kts)"
    and pc: "repr_items h cs" "distinct (map fst cs)"
    by simp_all
  from "3.IH"(1) [OF a pc] have 1: "absorbed le cs' cs" .
  from "3.IH"(2) [OF a [symmetric] b pk] have "absorbed le r' kts" .
  with kk 1 r show ?case by (simp add: absorbed_Cons_other)
qed

lemma absorbed_untouched:
  assumes "merge_items le rc path n kas1 kbs = (res, kas', n')" and "k \<notin> fst ` set kbs"
    and "map_of kas1 k = Some t1"
  shows "map_of kas' k = Some t1"
  using merge_items_untouched [OF assms(1,2)] assms(3) by simp

lemma merge_items_absorbed:
  assumes "merge_items le rc path n kas kbs = (res, kas', n')"
    and "\<not> rc" and "repr_items h kbs" and "distinct (map fst kbs)"
  shows "absorbed le kas' kbs"
  using assms
proof (induction rule: merge_items_rule)
  case (Nil le rc path n kas)
  then show ?case by simp
next
  case (Insert le rc path n kas k tb kbs t' n1 res kas' n')
  from Insert.prems have kk: "k \<notin> fst ` set kbs" and p: "\<not> rc" "repr_items h kbs" "distinct (map fst kbs)"
    and rt: "repr h tb"
    by simp_all
  from Insert.IH [OF p] have tail: "absorbed le kas' kbs" .
  have e: "map_of kas' k = Some t'"
    using Insert.hyps(3) kk by (rule absorbed_untouched) (simp add: update_conv')
  show ?case
  proof (cases tb)
    case (TLeaf y)
    with Insert.hyps(2) have "t' = TLeaf y" by (simp add: copy_tree_def)
    with e tail TLeaf show ?thesis by simp
  next
    case (TDict b' bs)
    with Insert.hyps(2) obtain cs where c: "copy_tree_items (Suc n) bs = (cs, n1)" and t': "t' = TDict n cs"
      by (auto simp: copy_tree_def split: prod.splits)
    from rt TDict have "repr_items h bs" "distinct (map fst bs)" by simp_all
    from absorbed_copy_items [OF c this] have "absorbed le cs bs" .
    with e tail TDict t' show ?thesis by simp
  qed
next
  case (Equal le rc path n kas k ta tb kbs res kas' n')
  from Equal.prems have kk: "k \<notin> fst ` set kbs" and p: "\<not> rc" "repr_items h kbs" "distinct (map fst kbs)"
    by simp_all
  from Equal.IH [OF p] have tail: "absorbed le kas' kbs" .
  have e: "map_of kas' k = Some ta"
    using Equal.hyps(4) kk Equal.hyps(1) by (rule absorbed_untouched)
  from Equal.hyps(2,3) obtain y where "tb = TLeaf y" by (cases ta; cases tb) auto
  with e tail Equal.hyps(3) show ?case by simp
next
  case (Conflict le rc path n kas k ta tb kbs)
  then show ?case by simp
next
  case (Overwrite le rc path n kas k ta tb kbs res kas' n')
  from Overwrite.prems have kk: "k \<notin> fst ` set kbs" and p: "\<not> rc" "repr_items h kbs" "distinct (map fst kbs)"
    and rt: "repr h tb"
    by simp_all
  from Overwrite.IH [OF p] have tail: "absorbed le kas' kbs" .
  have e: "map_of kas' k = Some tb"
    using Overwrite.hyps(5) kk by (rule absorbed_untouched) (simp add: update_conv')
  show ?case
  proof (cases tb)
    case (TLeaf y)
    with e tail show ?thesis by simp
  next
    case (TDict b' bs)
    with rt have "repr_items h bs" "distinct (map fst bs)" by simp_all
    then have "absorbed le bs bs" by (rule absorbed_refl)
    with e tail TDict show ?thesis by simp
  qed
next
  case (Descend_fail le rc path n kas k a' as b' bs kbs e as' n1)
  from merge_items_no_raise [OF Descend_fail.hyps(2)] Descend_fail.prems show ?case by simp
next
  case (Descend le rc path n kas k a' as b' bs kbs as' n1 res kas' n')
  from Descend.prems have kk: "k \<notin> fst ` set kbs" and p: "\<not> rc" "repr_items h kbs" "distinct (map fst kbs)"
    and pi: "repr_items h bs" "distinct (map fst bs)"
    by simp_all
  from Descend.IH(2) [OF p] have tail: "absorbed le kas' kbs" .
  from Descend.IH(1) [OF p(1) pi] have inner: "absorbed le as' bs" .
  have e: "map_of kas' k = Some (TDict a' as')"
    using Descend.hyps(3) kk by (rule absorbed_untouched) (simp add: update_conv')
  with tail inner show ?case by simp
qed

lemma map_of_copy_items:
  assumes "copy_tree_items n kas = (r, n')"
  shows "map_of kas k = None \<Longrightarrow> map_of r k = None"
    and "map_of kas k = Some (TLeaf x) \<Longrightarrow> map_of r k = Some (TLeaf x)"
    and "map_of kas k = Some (TDict a' as) \<Longrightarrow>
         \<exists>m as' m'. map_of r k = Some (TDict m as') \<and> copy_tree_items (Suc m) as = (as', m')"
  using assms
proof (induction n kas arbitrary: r n' rule: copy_tree_items.induct)
  case (1 n)
  { case 1 then show ?case by simp }
  { case 2 then show ?case by simp }
  { case 3 then show ?case by simp }
next
  case (2 n k0 x0 kts)
  { case 1
    from "1.prems"(2) obtain r' where a: "copy_tree_items n kts = (r', n')" and r: "r = (k0, TLeaf x0) # r'"
      by (auto split: prod.splits)
    from "1.prems"(1) have "k0 \<noteq> k" "map_of kts k = None" by (auto split: if_splits)
    with "2.IH"(1) [OF _ a] r show ?case by simp }
  { case 2
    from "2.prems"(2) obtain r' where a: "copy_tree_items n kts = (r', n')" and r: "r = (k0, TLeaf x0) # r'"
      by (auto split: prod.splits)
    show ?case
    proof (cases "k0 = k")
      case True
      with "2.prems"(1) r show ?thesis by simp
    next
      case False
      with "2.prems"(1) have "map_of kts k = Some (TLeaf x)" by simp
      with "2.IH"(2) [OF _ a] r False show ?thesis by simp
    qed }
  { case 3
    from "3.prems"(2) obtain r' where a: "copy_tree_items n kts = (r', n')" and r: "r = (k0, TLeaf x0) # r'"
      by (auto split: prod.splits)
    from "3.prems"(1) have "k0 \<noteq> k" "map_of kts k = Some (TDict a' as)" by (auto split: if_splits)
    with "2.IH"(3) [OF _ a] r show ?case by simp }
next
  case (3 n k0 p cs kts)
  { case 1
    from "1.prems"(2) obtain cs' n1 r' where
      a: "copy_tree_items (Suc n) cs = (cs', n1)" and b: "copy_tree_items n1 kts = (r', n')"
      and r: "r = (k0, TDict n cs') # r'"
      by (auto split: prod.splits)
    from "1.prems"(1) have "k0 \<noteq> k" "map_of kts k = None" by (auto split: if_splits)
    with "3.IH"(4) [OF a [symmetric] _ b] r show ?case by simp }
  { case 2
    from "2.prems"(2) obtain cs' n1 r' where
      a: "copy_tree_items (Suc n) cs = (cs', n1)" and b: "copy_tree_items n1 kts = (r', n')"
      and r: "r = (k0, TDict n cs') # r'"
      by (auto split: prod.splits)
    from "2.prems"(1) have "k0 \<noteq> k" "map_of kts k = Some (TLeaf x)" by (auto split: if_splits)
    with "3.IH"(5) [OF a [symmetric] _ b] r show ?case by simp }
  { case 3
    from "3.prems"(2) obtain cs' n1 r' where
      a: "copy_tree_items (Suc n) cs = (cs', n1)" and b: "copy_tree_items n1 kts = (r', n')"
      and r: "r = (k0, TDict n cs') # r'"
      by (auto split: prod.splits)
    show ?case
    proof (cases "k0 = k")
      case True
      with "3.prems"(1) have "cs = as" by simp
      with a r True show ?thesis by auto
    next
      case False
      with "3.prems"(1) have "map_of kts k = Some (TDict a' as)" by simp
      with "3.IH"(6) [OF a [symmetric] _ b] r False show ?thesis by simp
    qed }
qed

lemma absorbed_copy_target:
  "absorbed le kas kbs \<Longrightarrow> copy_tree_items n kas = (r, n') \<Longrightarrow> absorbed le r kbs"
proof (induction le kas kbs arbitrary: n r n' rule: absorbed.induct)
  case (1 le kas)
  then show ?case by simp
next
  case (2 le kas k y kbs)
  from "2.prems"(1) obtain ta where ta: "map_of kas k = Some ta"
    and h: "root ta = Leaf y \<or> py_eq le (root ta) (Leaf y)" and t: "absorbed le kas kbs"
    by (auto split: option.splits)
  from h obtain x where x: "ta = TLeaf x" by (cases ta) auto
  from map_of_copy_items(2) [OF "2.prems"(2)] ta x have "map_of r k = Some (TLeaf x)" by simp
  moreover from "2.IH" [OF t "2.prems"(2)] have "absorbed le r kbs" .
  ultimately show ?case using h x by simp
next
  case (3 le kas k b' bs kbs)
  from "3.prems"(1) obtain a' as where ta: "map_of kas k = Some (TDict a' as)"
    and i: "absorbed le as bs" and t: "absorbed le kas kbs"
    by (auto split: option.splits tree.splits)
  from map_of_copy_items(3) [OF "3.prems"(2) ta] obtain m as' m' where
    m: "map_of r k = Some (TDict m as')" and c: "copy_tree_items (Suc m) as = (as', m')"
    by blast
  from "3.IH"(1) [OF ta refl i c] have "absorbed le as' bs" .
  moreover from "3.IH"(2) [OF t "3.prems"(2)] have "absorbed le r kbs" .
  ultimately show ?case using m by simp
qed

lemma setitem_same: "a < length h \<Longrightarrow> map_of (h ! a) k = Some v \<Longrightarrow> setitem h a k v = h"
  by (simp add: setitem_def update_triv)

lemma merge_keys_absorbed:
  assumes "absorbed le kas kbs"
    and "a < length h" and "h ! a = entries kas" and "repr_items h kas"
    and "\<forall>kt\<in>set kbs. map_of (h ! b) (fst kt) = Some (root (snd kt))"
    and "repr_items h kbs" and "depth_items kbs \<le> fuel"
  shows "merge_keys le fuel (map fst kbs) h a b False path = Some (Inr a, h)"
  using assms
proof (induction le kas kbs arbitrary: h a b fuel path rule: absorbed.induct)
  case (1 le kas)
  then show ?case by (simp add: merge_keys.simps)
next
  case (2 le kas k y kbs)
  from "2.prems"(1) obtain ta where ta: "map_of kas k = Some ta"
    and hd: "root ta = Leaf y \<or> py_eq le (root ta) (Leaf y)" and t: "absorbed le kas kbs"
    by (auto split: option.splits)
  from "2.prems" have mb: "map_of (h ! b) k = Some (Leaf y)"
    and rest: "\<forall>kt\<in>set kbs. map_of (h ! b) (fst kt) = Some (root (snd kt))" "repr_items h kbs"
      "depth_items kbs \<le> fuel"
    by simp_all
  have ma: "map_of (h ! a) k = Some (root ta)" using "2.prems"(3) ta by (simp add: map_of_entries)
  have nb: "\<not> (\<exists>a' b'. root ta = Ref a' \<and> (Leaf y :: 'a val) = Ref b')" by simp
  from "2.IH" [OF t "2.prems"(2,3,4) rest]
  have tail: "merge_keys le fuel (map fst kbs) h a b False path = Some (Inr a, h)" .
  show ?case
  proof (cases "py_eq le (root ta) (Leaf y)")
    case True
    with merge_keys_nondict [OF mb ma nb, of le fuel "map fst kbs" False path] tail show ?thesis by simp
  next
    case False
    with hd have "root ta = Leaf y" by simp
    with ma have "setitem h a k (Leaf y) = h" using "2.prems"(2) by (simp add: setitem_same)
    with merge_keys_nondict [OF mb ma nb, of le fuel "map fst kbs" False path] False tail
    show ?thesis by simp
  qed
next
  case (3 le kas k b' bs kbs)
  from "3.prems"(1) obtain a' as where ta: "map_of kas k = Some (TDict a' as)"
    and i: "absorbed le as bs" and t: "absorbed le kas kbs"
    by (auto split: option.splits tree.splits)
  from "3.prems" have mb: "map_of (h ! b) k = Some (Ref b')"
    and rb: "repr h (TDict b' bs)"
    and rest: "\<forall>kt\<in>set kbs. map_of (h ! b) (fst kt) = Some (root (snd kt))" "repr_items h kbs"
      "depth_items kbs \<le> fuel"
    and fu: "depth (TDict b' bs) \<le> fuel"
    by simp_all
  from fu obtain m where fuel: "fuel = Suc m" and dm: "depth_items bs \<le> m" by (cases fuel) auto
  have ma: "map_of (h ! a) k = Some (Ref a')" using "3.prems"(3) ta by (simp add: map_of_entries)
  from map_of_repr [OF "3.prems"(4) ta] have ra: "repr h (TDict a' as)" .
  then have a': "a' < length h" "h ! a' = entries as" "repr_items h as" by simp_all
  from rb have b': "b' < length h" "h ! b' = entries bs" "repr_items h bs" "distinct (map fst bs)"
    by simp_all
  have mbs: "\<forall>kt\<in>set bs. map_of (h ! b') (fst kt) = Some (root (snd kt))"
  proof
    fix kt assume kt: "kt \<in> set bs"
    then have "(fst kt, snd kt) \<in> set bs" by simp
    with b'(4) have "map_of bs (fst kt) = Some (snd kt)" by (rule map_of_is_SomeI)
    with b'(2) show "map_of (h ! b') (fst kt) = Some (root (snd kt))" by (simp add: map_of_entries)
  qed
  from "3.IH"(1) [OF ta refl i a' mbs b'(3) dm]
  have inner: "merge_keys le m (map fst bs) h a' b' False (path @ [k]) = Some (Inr a', h)" .
  from "3.IH"(2) [OF t "3.prems"(2,3,4) rest]
  have tail: "merge_keys le fuel (map fst kbs) h a b False path = Some (Inr a, h)" .
  from merge_keys_descend [OF mb ma a'(1) b'(1), of le m "map fst kbs" False path] inner tail b'(2) fuel
  show ?case by simp
qed

lemma source_facts:
  assumes "repr h (TDict b kbs)"
  shows "b < length h" and "map fst (h ! b) = map fst kbs"
    and "\<forall>kt\<in>set kbs. map_of (h ! b) (fst kt) = Some (root (snd kt))" and "repr_items h kbs"
proof -
  from assms show "b < length h" "map fst (h ! b) = map fst kbs" "repr_items h kbs" by simp_all
  from assms have d: "distinct (map fst kbs)" and e: "h ! b = entries kbs" by simp_all
  show "\<forall>kt\<in>set kbs. map_of (h ! b) (fst kt) = Some (root (snd kt))"
  proof
    fix kt assume kt: "kt \<in> set kbs"
    then have "(fst kt, snd kt) \<in> set kbs" by simp
    with d have "map_of kbs (fst kt) = Some (snd kt)" by (rule map_of_is_SomeI)
    with e show "map_of (h ! b) (fst kt) = Some (root (snd kt))" by (simp add: map_of_entries)
  qed
qed

lemma merge_dicts_absorbed:
  assumes "absorbed le kas kbs" and "repr h (TDict a kas)" and "repr h (TDict b kbs)"
    and "depth (TDict b kbs) \<le> fuel"
  shows "merge_dicts le fuel h a b False path = Some (Inr a, h)"
proof -
  from assms(4) obtain m where fuel: "fuel = Suc m" and dm: "depth_items kbs \<le> m"
    by (cases fuel) auto
  from assms(2) have a: "a < length h" "h ! a = entries kas" "repr_items h kas" by simp_all
  note s = source_facts [OF assms(3)]
  from merge_keys_absorbed [OF assms(1) a s(3,4) dm]
  have "merge_keys le m (map fst kbs) h a b False path = Some (Inr a, h)" .
  with a(1) s(1,2) fuel show ?thesis by (simp add: merge_dicts_def)
qed

subsection \<open>The failing run\<close>

lemma merge_keys_step:
  "\<exists>s. (\<forall>keys. merge_keys le fuel (k # keys) h a b rc path =
             (case s of Inl r \<Rightarrow> r | Inr h1 \<Rightarrow> merge_keys le fuel keys h1 a b rc path))
       \<and> (\<forall>r. s = Inl r \<longrightarrow> r = None \<or> (\<exists>e h1. r = Some (Inl e, h1)))"
proof (cases "map_of (h ! b) k")
  case None
  then show ?thesis
    by (intro exI [of _ "Inl (Some (Inl (KeyError k), h))"]) (simp add: merge_keys.simps)
next
  case bv: (Some bv)
  show ?thesis
  proof (cases "map_of (h ! a) k")
    case None
    show ?thesis
    proof (cases bv)
      case (Leaf x)
      with bv None show ?thesis
        by (intro exI [of _ "Inr (setitem h a k (Leaf x))"]) (simp add: merge_keys.simps)
    next
      case (Ref b')
      show ?thesis
      proof (cases "deepcopy fuel h b'")
        case dn: None
        with bv None Ref show ?thesis
          by (intro exI [of _ "Inl None"]) (simp add: merge_keys.simps)
      next
        case (Some hc)
        obtain h0 c where "hc = (h0, c)" by (cases hc)
        with bv None Ref Some show ?thesis
          by (intro exI [of _ "Inr (setitem h0 a k (Ref c))"]) (simp add: merge_keys.simps)
      qed
    qed
  next
    case av: (Some av)
    show ?thesis
    proof (cases "\<exists>a' b'. av = Ref a' \<and> bv = Ref b'")
      case False
      note nd = merge_keys_nondict [OF bv av False, of le fuel _ rc path]
      show ?thesis
      proof (cases "py_eq le av bv")
        case True
        with nd show ?thesis by (intro exI [of _ "Inr h"]) simp
      next
        case ne: False
        show ?thesis
        proof (cases rc)
          case True
          with nd ne show ?thesis
            by (intro exI [of _ "Inl (Some (Inl (LookupError (conflict_msg (path @ [k]))), h))"]) simp
        next
          case False
          with nd ne show ?thesis by (intro exI [of _ "Inr (setitem h a k bv)"]) simp
        qed
      qed
    next
      case True
      then obtain a' b' where r: "av = Ref a'" "bv = Ref b'" by blast
      show ?thesis
      proof (cases fuel)
        case 0
        with bv av r show ?thesis by (intro exI [of _ "Inl None"]) (simp add: merge_keys.simps)
      next
        case (Suc m)
        show ?thesis
        proof (cases "a' < length h \<and> b' < length h")
          case False
          with bv av r Suc show ?thesis by (intro exI [of _ "Inl None"]) (auto simp: merge_keys.simps)
        next
          case True
          show ?thesis
          proof (cases "merge_keys le m (map fst (h ! b')) h a' b' rc (path @ [k])")
            case None
            with bv av r Suc True show ?thesis
              by (intro exI [of _ "Inl None"]) (simp add: merge_keys.simps)
          next
            case (Some p)
            obtain res h1 where p: "p = (res, h1)" by (cases p)
            show ?thesis
            proof (cases res)
              case (Inl e)
              with bv av r Suc True Some p show ?thesis
                by (intro exI [of _ "Inl (Some (Inl e, h1))"]) (simp add: merge_keys.simps)
            next
              case (Inr x)
              with bv av r Suc True Some p show ?thesis
                by (intro exI [of _ "Inr h1"]) (simp add: merge_keys.simps)
            qed
          qed
        qed
      qed
    qed
  qed
qed

lemma merge_keys_append:
  "merge_keys le n (xs @ ys) h a b rc path =
     (case merge_keys le n xs h a b rc path of
        None \<Rightarrow> None
      | Some (Inl e, h1) \<Rightarrow> Some (Inl e, h1)
      | Some (Inr r, h1) \<Rightarrow> merge_keys le n ys h1 a b rc path)"
proof (induction xs arbitrary: h)
  case Nil
  then show ?case by (simp add: merge_keys.simps)
next
  case (Cons k xs)
  from merge_keys_step [of le n k h a b rc path] obtain s where
    s: "\<And>keys. merge_keys le n (k # keys) h a b rc path =
             (case s of Inl r \<Rightarrow> r | Inr h1 \<Rightarrow> merge_keys le n keys h1 a b rc path)"
    and f: "\<And>r. s = Inl r \<Longrightarrow> r = None \<or> (\<exists>e h1. r = Some (Inl e, h1))"
    by blast
  show ?case
  proof (cases s)
    case (Inl r)
    from f [OF Inl] s [of xs] s [of "xs @ ys"] Inl show ?thesis by auto
  next
    case (Inr h1)
    with s [of xs] s [of "xs @ ys"] Cons.IH [of h1] show ?thesis by simp
  qed
qed

lemma merge_keys_first_failure:
  "merge_keys le n ks h a b rc path = Some (Inl e, h') \<Longrightarrow>
   \<exists>pre k post h1. ks = pre @ k # post
      \<and> merge_keys le n pre h a b rc path = Some (Inr a, h1)
      \<and> merge_keys le n [k] h1 a b rc path = Some (Inl e, h')"
proof (induction ks arbitrary: h)
  case Nil
  then show ?case by (simp add: merge_keys.simps)
next
  case (Cons k0 ks)
  have split: "merge_keys le n (k0 # ks) h a b rc path =
     (case merge_keys le n [k0] h a b rc path of
        None \<Rightarrow> None
      | Some (Inl e, h1) \<Rightarrow> Some (Inl e, h1)
      | Some (Inr r, h1) \<Rightarrow> merge_keys le n ks h1 a b rc path)"
    using merge_keys_append [of le n "[k0]" ks h a b rc path] by simp
  show ?case
  proof (cases "merge_keys le n [k0] h a b rc path")
    case None
    with split Cons.prems show ?thesis by simp
  next
    case (Some p)
    obtain r h1 where p: "p = (r, h1)" by (cases p)
    show ?thesis
    proof (cases r)
      case (Inl e0)
      with split Some p Cons.prems have "merge_keys le n [k0] h a b rc path = Some (Inl e, h')"
        by simp
      moreover have "merge_keys le n [] h a b rc path = Some (Inr a, h)" by (simp add: merge_keys.simps)
      ultimately have "k0 # ks = [] @ k0 # ks \<and> merge_keys le n [] h a b rc path = Some (Inr a, h)
          \<and> merge_keys le n [k0] h a b rc path = Some (Inl e, h')"
        by simp
      then show ?thesis by blast
    next
      case (Inr r0)
      with split Some p Cons.prems have "merge_keys le n ks h1 a b rc path = Some (Inl e, h')"
        by simp
      from Cons.IH [OF this] obtain pre k post h2 where
        d: "ks = pre @ k # post" "merge_keys le n pre h1 a b rc path = Some (Inr a, h2)"
          "merge_keys le n [k] h2 a b rc path = Some (Inl e, h')"
        by blast
      have "merge_keys le n (k0 # pre) h a b rc path = Some (Inr a, h2)"
        using merge_keys_append [of le n "[k0]" pre h a b rc path] Some p Inr d(2) by simp
      with d(1,3) have "k0 # ks = (k0 # pre) @ k # post
          \<and> merge_keys le n (k0 # pre) h a b rc path = Some (Inr a, h2)
          \<and> merge_keys le n [k] h2 a b rc path = Some (Inl e, h')"
        by simp
      then show ?thesis by blast
    qed
  qed
qed

lemma single_fail:
  assumes "merge_items le rc path n kas [(k, tb)] = (Inl e, kas', n')"
  shows "(kas' = kas \<and> (\<exists>ta. map_of kas k = Some ta \<and> \<not> (is_dict ta \<and> is_dict tb)))
       \<or> (\<exists>a' as as' b' bs. map_of kas k = Some (TDict a' as) \<and> tb = TDict b' bs
             \<and> kas' = AList.update k (TDict a' as') kas)"
  using assms
  by (cases tb; cases "map_of kas k")
     (auto split: if_splits tree.splits prod.splits sum.splits)

lemma repr_agree: "repr h t \<Longrightarrow> repr h' t \<Longrightarrow> p \<in> set (addrs t) \<Longrightarrow> h' ! p = h ! p"
proof (induction t rule: tree_induct)
  case (Leaf x)
  then show ?case by simp
next
  case (Dict q kts)
  from Dict.prems(3) consider "p = q" | kt where "kt \<in> set kts" "p \<in> set (addrs (snd kt))"
    by (auto simp: set_addrs_items)
  then show ?case
  proof cases
    case 1
    with Dict.prems(1,2) show ?thesis by simp
  next
    case 2
    with Dict.prems(1,2) have "repr h (snd kt)" "repr h' (snd kt)" by (simp_all add: repr_items_def)
    with Dict.IH [OF 2(1)] 2(2) show ?thesis by simp
  qed
qed

lemma stopped_at_base:
  "stopped_at h1 h' a kas kbs p \<Longrightarrow> repr h (TDict a kas) \<Longrightarrow> repr h1 (TDict a kas) \<Longrightarrow>
   stopped_at h h' a kas kbs p"
proof (induction p arbitrary: a kas kbs)
  case Nil
  then show ?case by simp
next
  case (Cons k p)
  from Cons.prems(2) have rk: "repr_items h kas" by simp
  from Cons.prems(3) have rk1: "repr_items h1 kas" by simp
  have g: "\<And>x. getitem h1 a x = getitem h a x"
    using getitem_repr [OF Cons.prems(2)] getitem_repr [OF Cons.prems(3)] by simp
  have cells: "\<And>x t q. map_of kas x = Some t \<Longrightarrow> q \<in> set (addrs t) \<Longrightarrow> h1 ! q = h ! q"
  proof -
    fix x t q assume m: "map_of kas x = Some t" and q: "q \<in> set (addrs t)"
    from map_of_repr [OF rk m] map_of_repr [OF rk1 m] q show "h1 ! q = h ! q" by (rule repr_agree)
  qed
  from Cons.prems(1) have s1: "getitem h' a k = getitem h1 a k"
    and s2: "\<forall>k'\<in>set (tl (dropWhile (\<lambda>x. x \<noteq> k) (map fst kbs))).
            getitem h' a k' = getitem h1 a k'
            \<and> (case map_of kas k' of None \<Rightarrow> True | Some t \<Rightarrow> \<forall>q\<in>set (addrs t). h' ! q = h1 ! q)"
    and s3: "(case map_of kas k of
           None \<Rightarrow> False
         | Some ta \<Rightarrow>
             (case map_of kbs k of
                None \<Rightarrow> False
              | Some tb \<Rightarrow>
                  (case ta of
                     TLeaf x \<Rightarrow> p = []
                   | TDict a' as \<Rightarrow>
                       (case tb of
                          TLeaf y \<Rightarrow> p = [] \<and> (\<forall>q\<in>set (addrs ta). h' ! q = h1 ! q)
                        | TDict b' bs \<Rightarrow> stopped_at h1 h' a' as bs p))))"
    by simp_all
  have t1: "getitem h' a k = getitem h a k" using s1 g by simp
  have t2: "\<forall>k'\<in>set (tl (dropWhile (\<lambda>x. x \<noteq> k) (map fst kbs))).
            getitem h' a k' = getitem h a k'
            \<and> (case map_of kas k' of None \<Rightarrow> True | Some t \<Rightarrow> \<forall>q\<in>set (addrs t). h' ! q = h ! q)"
  proof
    fix k' assume "k' \<in> set (tl (dropWhile (\<lambda>x. x \<noteq> k) (map fst kbs)))"
    with s2 have a1: "getitem h' a k' = getitem h1 a k'"
      and a2: "(case map_of kas k' of None \<Rightarrow> True | Some t \<Rightarrow> \<forall>q\<in>set (addrs t). h' ! q = h1 ! q)"
      by auto
    show "getitem h' a k' = getitem h a k'
            \<and> (case map_of kas k' of None \<Rightarrow> True | Some t \<Rightarrow> \<forall>q\<in>set (addrs t). h' ! q = h ! q)"
      using a1 a2 g cells [of k'] by (auto split: option.splits)
  qed
  have t3: "(case map_of kas k of
           None \<Rightarrow> False
         | Some ta \<Rightarrow>
             (case map_of kbs k of
                None \<Rightarrow> False
              | Some tb \<Rightarrow>
                  (case ta of
                     TLeaf x \<Rightarrow> p = []
                   | TDict a' as \<Rightarrow>
                       (case tb of
                          TLeaf y \<Rightarrow> p = [] \<and> (\<forall>q\<in>set (addrs ta). h' ! q = h ! q)
                        | TDict b' bs \<Rightarrow> stopped_at h h' a' as bs p))))"
  proof (cases "map_of kas k")
    case None
    with s3 show ?thesis by simp
  next
    case ta: (Some ta)
    show ?thesis
    proof (cases "map_of kbs k")
      case None
      with s3 ta show ?thesis by simp
    next
      case tb: (Some tb)
      show ?thesis
      proof (cases ta)
        case (TLeaf x)
        with s3 ta tb show ?thesis by simp
      next
        case (TDict a' as)
        note td = this
        show ?thesis
        proof (cases tb)
          case (TLeaf y)
          with s3 ta tb td have "p = []" and c: "\<forall>q\<in>set (addrs ta). h' ! q = h1 ! q"
            by (simp_all del: addrs_TDict)
          from c cells [OF ta] have "\<forall>q\<in>set (addrs ta). h' ! q = h ! q" by simp
          with \<open>p = []\<close> ta tb td TLeaf show ?thesis by (simp del: addrs_TDict)
        next
          case (TDict b' bs)
          with s3 ta tb td have s: "stopped_at h1 h' a' as bs p" by simp
          from ta td have m: "map_of kas k = Some (TDict a' as)" by simp
          from Cons.IH [OF s map_of_repr [OF rk m] map_of_repr [OF rk1 m]]
          show ?thesis using ta tb td TDict by simp
        qed
      qed
    qed
  qed
  show ?case using t1 t2 t3 by simp
qed

lemma takeWhile_upto:
  "k \<notin> set pre \<Longrightarrow> takeWhile (\<lambda>x. x \<noteq> k) (pre @ k # post) = pre"
  by (induction pre) auto

lemma dropWhile_upto:
  "k \<notin> set pre \<Longrightarrow> tl (dropWhile (\<lambda>x. x \<noteq> k) (pre @ k # post)) = post"
  by (induction pre) auto

lemma conflict_at_nonempty: "conflict_at le kas kbs p \<Longrightarrow> p \<noteq> []"
  by (cases p) (simp_all add: conflict_at.simps)

lemma merge_keys_stops:
  assumes "merge_pre h a b m kas kbs" and "map fst (h ! b) = map fst kbs"
    and "merge_keys le m (map fst kbs) h a b True path = Some (Inl e, h')"
  shows "\<exists>p. e = LookupError (conflict_msg (path @ p)) \<and> conflict_at le kas kbs p
           \<and> merged_before le (Suc m) h a b path p = Some h' \<and> stopped_at h h' a kas kbs p"
  using assms
proof (induction m arbitrary: h a b kas kbs path e h' rule: less_induct)
  case (less m)
  note pre0 = less.prems(1) and keys = less.prems(2) and whole = less.prems(3)
  from pre0 have ra: "repr h (TDict a kas)" and rkb: "repr_items h kbs" and dk: "distinct (map fst kbs)"
    by (simp_all add: merge_pre_def)
  from ra have rka: "repr_items h kas" by simp
  from merge_keys_first_failure [OF whole] obtain pre k post h1 where
    ks: "map fst kbs = pre @ k # post"
    and r1: "merge_keys le m pre h a b True path = Some (Inr a, h1)"
    and r2: "merge_keys le m [k] h1 a b True path = Some (Inl e, h')"
    by blast
  from ks obtain pre_i rest where kbs1: "kbs = pre_i @ rest" and p1: "pre = map fst pre_i"
    and p2: "k # post = map fst rest"
    by (auto simp: map_eq_append_conv)
  from p2 obtain kt post_i where rest: "rest = kt # post_i" and p3: "fst kt = k" and p4: "post = map fst post_i"
    by (auto simp: Cons_eq_map_conv)
  obtain tb where kt: "kt = (k, tb)" using p3 by (cases kt) simp
  have kbs: "kbs = pre_i @ (k, tb) # post_i" using kbs1 rest kt by simp
  from dk ks have kpre: "k \<notin> set pre" and kpost: "k \<notin> set post"
    and prepost: "\<And>x. x \<in> set post \<Longrightarrow> x \<notin> set pre"
    by auto
  have mtb: "map_of kbs k = Some tb" using dk kbs by (intro map_of_is_SomeI) simp_all
  from pre0 have pre1: "merge_pre h a b m kas (pre_i @ ((k, tb) # post_i))" using kbs by simp
  obtain res1 kas1 n1 where run1: "merge_items le True path (length h) kas pre_i = (res1, kas1, n1)"
    using prod_cases3 by blast
  from merge_keys_sim [OF run1 refl pre1] r1 p1 have res1: "res1 = Inr ()"
    and l1: "length h1 = n1" and post1: "merge_post h a kas pre_i h1 kas1"
    and pre2: "merge_pre h1 a b m kas1 ((k, tb) # post_i)"
    by (auto split: sum.splits)
  obtain res2 kas2 n2 where run2: "merge_items le True path n1 kas1 [(k, tb)] = (res2, kas2, n2)"
    using prod_cases3 by blast
  from pre2 have pre2': "merge_pre h1 a b m kas1 ([(k, tb)] @ post_i)" by simp
  from merge_keys_sim [OF run2 l1 [symmetric] pre2'] r2 have res2: "res2 = Inl e"
    and post2: "merge_post h1 a kas1 [(k, tb)] h' kas2"
    by (auto split: sum.splits)
  have same1: "\<And>x. x \<notin> set pre \<Longrightarrow> map_of kas1 x = map_of kas x"
    using merge_items_untouched [OF run1] p1 by simp
  from single_fail [OF run2 [unfolded res2]]
  have sf: "(kas2 = kas1 \<and> (\<exists>ta. map_of kas1 k = Some ta \<and> \<not> (is_dict ta \<and> is_dict tb)))
       \<or> (\<exists>a' as as' b' bs. map_of kas1 k = Some (TDict a' as) \<and> tb = TDict b' bs
             \<and> kas2 = AList.update k (TDict a' as') kas1)" .
  have rootk: "map_option root (map_of kas2 k) = map_option root (map_of kas1 k)"
    using sf by (auto simp: update_conv')
  have other: "\<And>x. x \<noteq> k \<Longrightarrow> map_of kas2 x = map_of kas1 x"
    using sf by (auto simp: update_conv')
  have g: "\<And>x. getitem h' a x = map_option root (map_of kas2 x)"
    using post2 by (rule getitem_post)
  have g0: "\<And>x. getitem h a x = map_option root (map_of kas x)"
    using ra by (rule getitem_repr)
  have ri2: "repr_items h' kas2" using post2 by (simp add: merge_post_def)
  have sub: "\<And>x t. map_of kas2 x = Some t \<Longrightarrow> map_of kas x = Some t \<Longrightarrow>
      \<forall>p\<in>set (addrs t). h' ! p = h ! p"
  proof
    fix x t p assume m2: "map_of kas2 x = Some t" and m0: "map_of kas x = Some t"
      and p: "p \<in> set (addrs t)"
    from map_of_repr [OF rka m0] map_of_repr [OF ri2 m2] p
    show "h' ! p = h ! p" by (rule repr_agree)
  qed
  have c1: "getitem h' a k = getitem h a k"
    using g [of k] g0 [of k] rootk same1 [OF kpre] by simp
  have c2: "\<forall>k'\<in>set (tl (dropWhile (\<lambda>x. x \<noteq> k) (map fst kbs))). getitem h' a k' = getitem h a k'
                 \<and> (case map_of kas k' of None \<Rightarrow> True | Some t \<Rightarrow> \<forall>q\<in>set (addrs t). h' ! q = h ! q)"
  proof
    fix k' assume "k' \<in> set (tl (dropWhile (\<lambda>x. x \<noteq> k) (map fst kbs)))"
    then have k': "k' \<in> set post" using ks dropWhile_upto [OF kpre] by simp
    with kpost have ne: "k' \<noteq> k" by auto
    have e: "map_of kas2 k' = map_of kas k'" using other [OF ne] same1 [OF prepost [OF k']] by simp
    then have "getitem h' a k' = getitem h a k'" using g [of k'] g0 [of k'] by simp
    moreover have "(case map_of kas k' of None \<Rightarrow> True | Some t \<Rightarrow> \<forall>q\<in>set (addrs t). h' ! q = h ! q)"
      using e sub by (auto split: option.splits)
    ultimately show "getitem h' a k' = getitem h a k'
                 \<and> (case map_of kas k' of None \<Rightarrow> True | Some t \<Rightarrow> \<forall>q\<in>set (addrs t). h' ! q = h ! q)"
      by simp
  qed
  have tw: "takeWhile (\<lambda>x. x \<noteq> k) (map fst (h ! b)) = pre"
    using keys ks takeWhile_upto [OF kpre] by simp
  from pre2 have mb1: "map_of (h1 ! b) k = Some (root tb)" and ha1: "h1 ! a = entries kas1"
    and rk1: "repr_items h1 kas1" and rtb1: "repr h1 tb"
    by (simp_all add: merge_pre_def)
  from sf show ?case
  proof
    assume "kas2 = kas1 \<and> (\<exists>ta. map_of kas1 k = Some ta \<and> \<not> (is_dict ta \<and> is_dict tb))"
    then obtain ta where A: "kas2 = kas1" "map_of kas1 k = Some ta" "\<not> (is_dict ta \<and> is_dict tb)"
      by auto
    have ma1: "map_of (h1 ! a) k = Some (root ta)" using ha1 A(2) by (simp add: map_of_entries)
    from merge_keys_nondict [OF mb1 ma1 root_not_both [OF A(3)], of le m "[]" True path] r2
    have hh: "h' = h1" and ee: "e = LookupError (conflict_msg (path @ [k]))"
      and ne: "\<not> py_eq le (root ta) (root tb)"
      by (simp_all add: merge_keys.simps split: if_splits)
    have mta: "map_of kas k = Some ta" using A(2) same1 [OF kpre] by simp
    have cf: "conflict_at le kas kbs [k]"
      using mta mtb A(3) ne by (simp add: conflict_at.simps)
    have mb: "merged_before le (Suc m) h a b path [k] = Some h'"
      using tw r1 hh by simp
    have cells: "\<forall>q\<in>set (addrs ta). h' ! q = h ! q"
      using A(1,2) mta sub by auto
    have c3: "(case ta of
                 TLeaf x \<Rightarrow> True
               | TDict a' as \<Rightarrow>
                   (case tb of
                      TLeaf y \<Rightarrow> (\<forall>q\<in>set (addrs ta). h' ! q = h ! q)
                    | TDict b' bs \<Rightarrow> stopped_at h h' a' as bs []))"
      using A(3) cells by (cases ta; cases tb) (simp_all del: addrs_TDict)
    have st: "stopped_at h h' a kas kbs [k]"
      using c1 c2 c3 mta mtb by (simp del: addrs_TDict split: tree.splits)
    from ee cf mb st show ?case by blast
  next
    assume "\<exists>a' as as' b' bs. map_of kas1 k = Some (TDict a' as) \<and> tb = TDict b' bs
             \<and> kas2 = AList.update k (TDict a' as') kas1"
    then obtain a' as as' b' bs where B: "map_of kas1 k = Some (TDict a' as)" "tb = TDict b' bs"
      "kas2 = AList.update k (TDict a' as') kas1"
      by blast
    from pre2 B(2) have pre2d: "merge_pre h1 a b m kas1 ((k, TDict b' bs) # post_i)" by simp
    from pre_inner [OF pre2d B(1)] obtain m' where m: "m = Suc m'" and prei: "merge_pre h1 a' b' m' as bs"
      by blast
    from prei have la: "a' < length h1" and lb: "b' < length h1" by (simp_all add: merge_pre_def)
    have ma1: "map_of (h1 ! a) k = Some (Ref a')" using ha1 B(1) by (simp add: map_of_entries)
    have mb1': "map_of (h1 ! b) k = Some (Ref b')" using mb1 B(2) by simp
    from rtb1 B(2) have keysi: "map fst (h1 ! b') = map fst bs" by (simp add: source_facts(2))
    from merge_keys_descend [OF mb1' ma1 la lb, of le m' "[]" True path] r2 m
    have inner: "merge_keys le m' (map fst bs) h1 a' b' True (path @ [k]) = Some (Inl e, h')"
      using keysi by (auto simp: merge_keys.simps split: option.splits sum.splits prod.splits)
    have lt: "m' < m" using m by simp
    from less.IH [OF lt prei keysi inner] obtain p' where
      ee: "e = LookupError (conflict_msg ((path @ [k]) @ p'))" and cfi: "conflict_at le as bs p'"
      and mbi: "merged_before le (Suc m') h1 a' b' (path @ [k]) p' = Some h'"
      and sti: "stopped_at h1 h' a' as bs p'"
      by blast
    have mta: "map_of kas k = Some (TDict a' as)" using B(1) same1 [OF kpre] by simp
    have mtb': "map_of kbs k = Some (TDict b' bs)" using mtb B(2) by simp
    have e1: "e = LookupError (conflict_msg (path @ k # p'))" using ee by simp
    have cf: "conflict_at le kas kbs (k # p')"
      using mta mtb' cfi by (simp add: conflict_at.simps)
    have ne: "p' \<noteq> []" using cfi by (rule conflict_at_nonempty)
    have mb: "merged_before le (Suc m) h a b path (k # p') = Some h'"
      using tw r1 ne ma1 mb1' mbi m by (simp add: getitem_def)
    have st0: "stopped_at h h' a' as bs p'"
      using sti map_of_repr [OF rka mta] map_of_repr [OF rk1 B(1)] by (rule stopped_at_base)
    have st: "stopped_at h h' a kas kbs (k # p')"
      using c1 c2 st0 mta mtb' by simp
    from e1 cf mb st show ?case by blast
  qed
qed

text \<open>
  The two definitions on an example: the target \<open>{x: {y: 1, z: {q: 1}}}\<close> and the source
  \<open>{w: 5, x: {v: 7, y: 2, z: {r: 3}}, u: 9}\<close> conflict at \<open>x.y\<close>. The heap with \<open>w\<close> and
  \<open>x.v\<close> inserted is the one where the merge stops; the same heap with the target's
  \<open>x.y\<close> overwritten is not.
\<close>

lemma merge_stops_example:
  "merged_before (=) 3
     [[(''x'', Ref 2)], [(''w'', Leaf 5), (''x'', Ref 3), (''u'', Leaf 9)],
      [(''y'', Leaf (1::int)), (''z'', Ref 4)], [(''v'', Leaf 7), (''y'', Leaf 2), (''z'', Ref 5)],
      [(''q'', Leaf 1)], [(''r'', Leaf 3)]] 0 1 [] [''x'', ''y'']
     = Some [[(''x'', Ref 2), (''w'', Leaf 5)], [(''w'', Leaf 5), (''x'', Ref 3), (''u'', Leaf 9)],
      [(''y'', Leaf (1::int)), (''z'', Ref 4), (''v'', Leaf 7)], [(''v'', Leaf 7), (''y'', Leaf 2), (''z'', Ref 5)],
      [(''q'', Leaf 1)], [(''r'', Leaf 3)]]"
  "stopped_at
     [[(''x'', Ref 2)], [(''w'', Leaf 5), (''x'', Ref 3), (''u'', Leaf 9)],
      [(''y'', Leaf (1::int)), (''z'', Ref 4)], [(''v'', Leaf 7), (''y'', Leaf 2), (''z'', Ref 5)],
      [(''q'', Leaf 1)], [(''r'', Leaf 3)]]
     [[(''x'', Ref 2), (''w'', Leaf 5)], [(''w'', Leaf 5), (''x'', Ref 3), (''u'', Leaf 9)],
      [(''y'', Leaf (1::int)), (''z'', Ref 4), (''v'', Leaf 7)], [(''v'', Leaf 7), (''y'', Leaf 2), (''z'', Ref 5)],
      [(''q'', Leaf 1)], [(''r'', Leaf 3)]] 0
     [(''x'', TDict 2 [(''y'', TLeaf (1::int)), (''z'', TDict 4 [(''q'', TLeaf 1)])])]
     [(''w'', TLeaf (5::int)),
      (''x'', TDict 3 [(''v'', TLeaf 7), (''y'', TLeaf 2), (''z'', TDict 5 [(''r'', TLeaf 3)])]),
      (''u'', TLeaf 9)]
     [''x'', ''y'']"
  "\<not> stopped_at
     [[(''x'', Ref 2)], [(''w'', Leaf 5), (''x'', Ref 3), (''u'', Leaf 9)],
      [(''y'', Leaf (1::int)), (''z'', Ref 4)], [(''v'', Leaf 7), (''y'', Leaf 2), (''z'', Ref 5)],
      [(''q'', Leaf 1)], [(''r'', Leaf 3)]]
     [[(''x'', Ref 2), (''w'', Leaf 5)], [(''w'', Leaf 5), (''x'', Ref 3), (''u'', Leaf 9)],
      [(''y'', Leaf (2::int)), (''z'', Ref 4), (''v'', Leaf 7)], [(''v'', Leaf 7), (''y'', Leaf 2), (''z'', Ref 5)],
      [(''q'', Leaf 1)], [(''r'', Leaf 3)]] 0
     [(''x'', TDict 2 [(''y'', TLeaf (1::int)), (''z'', TDict 4 [(''q'', TLeaf 1)])])]
     [(''w'', TLeaf (5::int)),
      (''x'', TDict 3 [(''v'', TLeaf 7), (''y'', TLeaf 2), (''z'', TDict 5 [(''r'', TLeaf 3)])]),
      (''u'', TLeaf 9)]
     [''x'', ''y'']"
  by (simp_all add: numeral_3_eq_3 merge_keys.simps setitem_def getitem_def)

lemma merge_items_head_insert:
  assumes "merge_items le rc path n kas ((k, tb) # kbs) = (res, kas', n')"
    and "k \<notin> fst ` set kbs" and "map_of kas k = None"
  shows "\<exists>t' n2. copy_tree n tb = (t', n2) \<and> n \<le> n2 \<and> map_of kas' k = Some t'"
proof (cases tb)
  case (TLeaf y)
  with assms(1,3) have run: "merge_items le rc path n (AList.update k (TLeaf y) kas) kbs = (res, kas', n')"
    by simp
  from merge_items_untouched [OF run assms(2)] have "map_of kas' k = Some (TLeaf y)"
    by (simp add: update_conv')
  with TLeaf show ?thesis by (simp add: copy_tree_def)
next
  case (TDict b' bs)
  obtain cs n1 where c: "copy_tree_items (Suc n) bs = (cs, n1)" by (cases "copy_tree_items (Suc n) bs")
  with TDict assms(1,3)
  have run: "merge_items le rc path n1 (AList.update k (TDict n cs) kas) kbs = (res, kas', n')"
    by simp
  from merge_items_untouched [OF run assms(2)] have m: "map_of kas' k = Some (TDict n cs)"
    by (simp add: update_conv')
  from copy_tree_items_mono [OF c] have "n \<le> n1" by simp
  with TDict c m show ?thesis by (simp add: copy_tree_def)
qed

subsection \<open>The claims on merge_dicts\<close>

text \<open>
  C2. Under \<open>raise_conflicts\<close> the merge of two disjoint trees raises exactly when there
  is a conflict: a key path that exists in both with two values at its end that are
  not both dictionaries and not equal. The exception then is \<open>LookupError\<close> with the
  message of such a path, the keys joined with dots after the keys of \<open>path\<close>. Without
  \<open>raise_conflicts\<close> the merge returns the target.
\<close>

theorem merge_dicts_raises_iff_conflict:
  assumes "disjoint_trees h (TDict a kas) (TDict b kbs)" and "depth (TDict b kbs) \<le> fuel"
  shows "((\<exists>e h'. merge_dicts le fuel h a b True path = Some (Inl e, h')) \<longleftrightarrow> (\<exists>p. conflict_at le kas kbs p))
       \<and> (\<forall>e h'. merge_dicts le fuel h a b True path = Some (Inl e, h') \<longrightarrow>
            (\<exists>p. conflict_at le kas kbs p \<and> e = LookupError (conflict_msg (path @ p))))
       \<and> (\<exists>h'. merge_dicts le fuel h a b False path = Some (Inr a, h'))"
proof -
  from assms(1) have rk: "repr_items h kbs" "distinct (map fst kbs)" by (simp_all add: disjoint_trees_def)
  obtain res kas' n' where run: "merge_items le True path (length h) kas kbs = (res, kas', n')"
    using prod_cases3 by blast
  from merge_dicts_sim [OF assms run] obtain h' where
    h': "merge_dicts le fuel h a b True path = Some (case res of Inl e \<Rightarrow> Inl e | Inr u \<Rightarrow> Inr a, h')"
    by blast
  note c = merge_items_conflict [OF run rk]
  have 1: "(\<exists>e h'. merge_dicts le fuel h a b True path = Some (Inl e, h')) \<longleftrightarrow> (\<exists>p. conflict_at le kas kbs p)"
    using c h' by (cases res) auto
  have 2: "\<forall>e h'. merge_dicts le fuel h a b True path = Some (Inl e, h') \<longrightarrow>
            (\<exists>p. conflict_at le kas kbs p \<and> e = LookupError (conflict_msg (path @ p)))"
    using c h' by (cases res) auto
  obtain res2 kas2 n2 where run2: "merge_items le False path (length h) kas kbs = (res2, kas2, n2)"
    using prod_cases3 by blast
  from merge_items_no_raise [OF run2] have "res2 = Inr ()" by simp
  with merge_dicts_sim [OF assms run2]
  have 3: "\<exists>h'. merge_dicts le fuel h a b False path = Some (Inr a, h')" by auto
  from 1 2 3 show ?thesis by blast
qed

theorem merge_dicts_raises_iff_conflict_witness:
  "disjoint_trees [[(''x'', Ref 2)], [(''x'', Ref 3)], [(''y'', Leaf (1::int))], [(''y'', Leaf 2)]]
     (TDict 0 [(''x'', TDict 2 [(''y'', TLeaf 1)])]) (TDict 1 [(''x'', TDict 3 [(''y'', TLeaf 2)])])
   \<and> depth (TDict 1 [(''x'', TDict 3 [(''y'', TLeaf (2::int))])]) \<le> 2
   \<and> merge_dicts (=) 2 [[(''x'', Ref 2)], [(''x'', Ref 3)], [(''y'', Leaf (1::int))], [(''y'', Leaf 2)]] 0 1 True []
       = Some (Inl (LookupError (''Conflict at '' @ [CHR 0x27] @ ''x.y'' @ [CHR 0x27])),
               [[(''x'', Ref 2)], [(''x'', Ref 3)], [(''y'', Leaf 1)], [(''y'', Leaf 2)]])
   \<and> (\<exists>p. conflict_at (=) [(''x'', TDict 2 [(''y'', TLeaf (1::int))])] [(''x'', TDict 3 [(''y'', TLeaf 2)])] p)
   \<and> (\<exists>h'. merge_dicts (=) 2 [[(''x'', Ref 2)], [(''x'', Ref 3)], [(''y'', Leaf (1::int))], [(''y'', Leaf 2)]] 0 1 False []
         = Some (Inr 0, h'))"
proof -
  let ?h = "[[(''x'', Ref 2)], [(''x'', Ref 3)], [(''y'', Leaf (1::int))], [(''y'', Leaf 2)]]"
  have d: "disjoint_trees ?h
     (TDict 0 [(''x'', TDict 2 [(''y'', TLeaf 1)])]) (TDict 1 [(''x'', TDict 3 [(''y'', TLeaf 2)])])"
    by (simp add: disjoint_trees_def)
  have f: "depth (TDict 1 [(''x'', TDict 3 [(''y'', TLeaf (2::int))])]) \<le> 2"
    by simp
  have e: "merge_dicts (=) 2 ?h 0 1 True []
       = Some (Inl (LookupError (''Conflict at '' @ [CHR 0x27] @ ''x.y'' @ [CHR 0x27])), ?h)"
    by (simp add: merge_dicts_def numeral_2_eq_2 merge_keys.simps conflict_msg_def)
  from d f e merge_dicts_raises_iff_conflict [OF d f, of "(=)" "[]"] show ?thesis by blast
qed

text \<open>
  C3. A key of both trees whose two values are not both dictionaries and not equal:
  without \<open>raise_conflicts\<close> the merge returns the target, and the target then has
  under the key the value of the source, the same leaf or the same dictionary object,
  with the subtree of the source under it as it was.
\<close>

theorem merge_dicts_overwrite_value:
  assumes "disjoint_trees h (TDict a kas) (TDict b kbs)" and "depth (TDict b kbs) \<le> fuel"
    and "getitem h a k = Some av" and "getitem h b k = Some bv"
    and "\<not> (\<exists>p q. av = Ref p \<and> bv = Ref q)" and "\<not> py_eq le av bv"
  shows "\<exists>h'. merge_dicts le fuel h a b False path = Some (Inr a, h')
           \<and> getitem h' a k = Some bv \<and> getitem h' b k = Some bv
           \<and> (\<forall>tb. map_of kbs k = Some tb \<longrightarrow> repr h' tb)"
proof -
  from assms(1) have ra: "repr h (TDict a kas)" and rb: "repr h (TDict b kbs)"
    by (simp_all add: disjoint_trees_def del: repr_TDict)
  from rb have dk: "distinct (map fst kbs)" by simp
  from assms(3) getitem_repr [OF ra, of k] obtain ta where ta: "map_of kas k = Some ta" "root ta = av"
    by auto
  from assms(4) getitem_repr [OF rb, of k] obtain tb where tb: "map_of kbs k = Some tb" "root tb = bv"
    by auto
  from assms(5) ta tb have nd: "\<not> (is_dict ta \<and> is_dict tb)" by (auto simp: is_dict_root)
  from assms(6) ta tb have ne: "\<not> py_eq le (root ta) (root tb)" by simp
  obtain res kas' n' where run: "merge_items le False path (length h) kas kbs = (res, kas', n')"
    using prod_cases3 by blast
  from merge_items_no_raise [OF run] have res: "res = Inr ()" by simp
  from merge_dicts_sim [OF assms(1,2) run] res obtain h' where
    h': "merge_dicts le fuel h a b False path = Some (Inr a, h')" "merge_post h a kas kbs h' kas'"
    by auto
  have e: "map_of kas' k = Some tb"
    using run dk tb(1) ta(1) nd ne by (rule merge_items_entry_overwrite) simp
  from h'(2) have "repr_items h' kas'" by (simp add: merge_post_def)
  from map_of_repr [OF this e] have rtb: "repr h' tb" .
  have "getitem h' a k = Some bv" using getitem_post [OF h'(2), of k] e tb(2) by simp
  moreover have "getitem h' b k = Some bv"
    using merge_post_source(2) [OF assms(1) h'(2)] assms(4) by (simp add: getitem_def)
  ultimately show ?thesis using h'(1) rtb tb(1) by auto
qed

theorem merge_dicts_overwrite_value_witness:
  "disjoint_trees [[(''x'', Leaf (1::int)), (''z'', Leaf 5)], [(''x'', Ref 2), (''z'', Leaf 6)], [(''y'', Leaf 1)]]
     (TDict 0 [(''x'', TLeaf 1), (''z'', TLeaf 5)]) (TDict 1 [(''x'', TDict 2 [(''y'', TLeaf 1)]), (''z'', TLeaf 6)])
   \<and> depth (TDict 1 [(''x'', TDict 2 [(''y'', TLeaf (1::int))]), (''z'', TLeaf 6)]) \<le> 2
   \<and> (\<exists>h'. merge_dicts (=) 2 [[(''x'', Leaf (1::int)), (''z'', Leaf 5)], [(''x'', Ref 2), (''z'', Leaf 6)], [(''y'', Leaf 1)]]
            0 1 False [] = Some (Inr 0, h')
         \<and> getitem h' 0 ''x'' = Some (Ref 2) \<and> getitem h' 1 ''x'' = Some (Ref 2)
         \<and> (\<forall>tb. map_of [(''x'', TDict 2 [(''y'', TLeaf 1)]), (''z'', TLeaf 6)] ''x'' = Some tb \<longrightarrow> repr h' tb))"
proof -
  let ?h = "[[(''x'', Leaf (1::int)), (''z'', Leaf 5)], [(''x'', Ref 2), (''z'', Leaf 6)], [(''y'', Leaf 1)]]"
  have d: "disjoint_trees ?h
     (TDict 0 [(''x'', TLeaf 1), (''z'', TLeaf 5)]) (TDict 1 [(''x'', TDict 2 [(''y'', TLeaf 1)]), (''z'', TLeaf 6)])"
    by (simp add: disjoint_trees_def)
  have f: "depth (TDict 1 [(''x'', TDict 2 [(''y'', TLeaf (1::int))]), (''z'', TLeaf 6)]) \<le> 2"
    by simp
  have x: "getitem ?h 0 ''x'' = Some (Leaf 1)" "getitem ?h 1 ''x'' = Some (Ref 2)"
    "\<not> (\<exists>p q. (Leaf 1 :: int val) = Ref p \<and> (Ref 2 :: int val) = Ref q)" "\<not> py_eq (=) (Leaf (1::int)) (Ref 2)"
    by (simp_all add: getitem_def)
  have c: "\<exists>h'. merge_dicts (=) 2 ?h 0 1 False [] = Some (Inr 0, h')
         \<and> getitem h' 0 ''x'' = Some (Ref 2) \<and> getitem h' 1 ''x'' = Some (Ref 2)
         \<and> (\<forall>tb. map_of [(''x'', TDict 2 [(''y'', TLeaf 1)]), (''z'', TLeaf 6)] ''x'' = Some tb \<longrightarrow> repr h' tb)"
    by (rule merge_dicts_overwrite_value [OF d f x])
  show ?thesis by (rule conjI [OF d conjI [OF f c]])
qed

text \<open>
  C4. A key of both trees whose two values are not both dictionaries and are equal:
  under either policy the merge terminates with the target's value under the key as
  it was; an exception under \<open>raise_conflicts\<close> is the conflict of a path that does not
  start with this key, and when every conflict would start with it there is no
  exception.
\<close>

theorem merge_dicts_equal_value:
  assumes "disjoint_trees h (TDict a kas) (TDict b kbs)" and "depth (TDict b kbs) \<le> fuel"
    and "getitem h a k = Some av" and "getitem h b k = Some bv"
    and "\<not> (\<exists>p q. av = Ref p \<and> bv = Ref q)" and "py_eq le av bv"
  shows "\<exists>res h'. merge_dicts le fuel h a b rc path = Some (res, h')
           \<and> getitem h' a k = Some av
           \<and> (\<forall>e. res = Inl e \<longrightarrow>
                (\<exists>p. conflict_at le kas kbs p \<and> hd p \<noteq> k \<and> e = LookupError (conflict_msg (path @ p))))
           \<and> ((\<forall>p. conflict_at le kas kbs p \<longrightarrow> hd p = k) \<longrightarrow> res = Inr a)"
proof -
  from assms(1) have ra: "repr h (TDict a kas)" and rb: "repr h (TDict b kbs)"
    by (simp_all add: disjoint_trees_def del: repr_TDict)
  from rb have dk: "distinct (map fst kbs)" and rk: "repr_items h kbs" by simp_all
  from assms(3) getitem_repr [OF ra, of k] obtain ta where ta: "map_of kas k = Some ta" "root ta = av"
    by auto
  from assms(4) getitem_repr [OF rb, of k] obtain tb where tb: "map_of kbs k = Some tb" "root tb = bv"
    by auto
  from assms(5) ta tb have nd: "\<not> (is_dict ta \<and> is_dict tb)" by (auto simp: is_dict_root)
  from assms(6) ta tb have eq: "py_eq le (root ta) (root tb)" by simp
  have nok: "\<And>p. conflict_at le kas kbs p \<Longrightarrow> hd p \<noteq> k"
  proof
    fix p assume c: "conflict_at le kas kbs p" and "hd p = k"
    then obtain p' where "p = k # p'" by (cases p) (auto simp: conflict_at.simps)
    with c ta tb nd eq show False by (auto simp: conflict_at.simps)
  qed
  obtain res kas' n' where run: "merge_items le rc path (length h) kas kbs = (res, kas', n')"
    using prod_cases3 by blast
  from merge_dicts_sim [OF assms(1,2) run] obtain h' where
    h': "merge_dicts le fuel h a b rc path = Some (case res of Inl e \<Rightarrow> Inl e | Inr u \<Rightarrow> Inr a, h')"
      "merge_post h a kas kbs h' kas'"
    by auto
  have e: "map_of kas' k = Some ta"
    using run dk tb(1) ta(1) nd eq by (rule merge_items_entry_equal)
  have g: "getitem h' a k = Some av" using getitem_post [OF h'(2), of k] e ta(2) by simp
  note c = merge_items_conflict [OF run rk dk]
  show ?thesis
  proof (cases res)
    case (Inl e)
    with c obtain p where p: "conflict_at le kas kbs p" "e = LookupError (conflict_msg (path @ p))"
      by auto
    from nok [OF p(1)] p h'(1) g Inl show ?thesis by auto
  next
    case (Inr u)
    with h'(1) g show ?thesis by auto
  qed
qed

theorem merge_dicts_equal_value_witness:
  "disjoint_trees [[(''x'', Leaf (1::int)), (''z'', Leaf 5)], [(''x'', Leaf 1), (''z'', Leaf 6)]]
     (TDict 0 [(''x'', TLeaf 1), (''z'', TLeaf 5)]) (TDict 1 [(''x'', TLeaf 1), (''z'', TLeaf 6)])
   \<and> depth (TDict 1 [(''x'', TLeaf (1::int)), (''z'', TLeaf 6)]) \<le> 1
   \<and> (\<exists>res h'. merge_dicts (=) 1 [[(''x'', Leaf (1::int)), (''z'', Leaf 5)], [(''x'', Leaf 1), (''z'', Leaf 6)]]
            0 1 True [] = Some (res, h')
         \<and> getitem h' 0 ''x'' = Some (Leaf 1)
         \<and> (\<forall>e. res = Inl e \<longrightarrow>
               (\<exists>p. conflict_at (=) [(''x'', TLeaf (1::int)), (''z'', TLeaf 5)] [(''x'', TLeaf 1), (''z'', TLeaf 6)] p
                    \<and> hd p \<noteq> ''x'' \<and> e = LookupError (conflict_msg ([] @ p))))
         \<and> ((\<forall>p. conflict_at (=) [(''x'', TLeaf (1::int)), (''z'', TLeaf 5)] [(''x'', TLeaf 1), (''z'', TLeaf 6)] p
                 \<longrightarrow> hd p = ''x'') \<longrightarrow> res = Inr 0))"
proof -
  let ?h = "[[(''x'', Leaf (1::int)), (''z'', Leaf 5)], [(''x'', Leaf 1), (''z'', Leaf 6)]]"
  have d: "disjoint_trees ?h
     (TDict 0 [(''x'', TLeaf 1), (''z'', TLeaf 5)]) (TDict 1 [(''x'', TLeaf 1), (''z'', TLeaf 6)])"
    by (simp add: disjoint_trees_def)
  have f: "depth (TDict 1 [(''x'', TLeaf (1::int)), (''z'', TLeaf 6)]) \<le> 1"
    by simp
  have x: "getitem ?h 0 ''x'' = Some (Leaf 1)" "getitem ?h 1 ''x'' = Some (Leaf 1)"
    "\<not> (\<exists>p q. (Leaf 1 :: int val) = Ref p \<and> (Leaf 1 :: int val) = Ref q)" "py_eq (=) (Leaf (1::int)) (Leaf 1)"
    by (simp_all add: getitem_def)
  have c: "\<exists>res h'. merge_dicts (=) 1 ?h 0 1 True [] = Some (res, h')
         \<and> getitem h' 0 ''x'' = Some (Leaf 1)
         \<and> (\<forall>e. res = Inl e \<longrightarrow>
               (\<exists>p. conflict_at (=) [(''x'', TLeaf (1::int)), (''z'', TLeaf 5)] [(''x'', TLeaf 1), (''z'', TLeaf 6)] p
                    \<and> hd p \<noteq> ''x'' \<and> e = LookupError (conflict_msg ([] @ p))))
         \<and> ((\<forall>p. conflict_at (=) [(''x'', TLeaf (1::int)), (''z'', TLeaf 5)] [(''x'', TLeaf 1), (''z'', TLeaf 6)] p
                 \<longrightarrow> hd p = ''x'') \<longrightarrow> res = Inr 0)"
    by (rule merge_dicts_equal_value [OF d f x])
  show ?thesis by (rule conjI [OF d conjI [OF f c]])
qed

text \<open>
  C5. A key \<open>k\<close> of the source that the target does not have; \<open>pre\<close> are the entries
  of the source before it. Under either policy the merge terminates, and without
  \<open>raise_conflicts\<close> it returns the target. With \<open>raise_conflicts\<close> and a conflict under
  a key of \<open>pre\<close> the merge raises and the target still has no entry for \<open>k\<close>. In
  every other case the target has the key at the end, also when the merge raises at
  a later key: a leaf of the source is stored as it is; for a dictionary of the source
  the target holds a dictionary of the same shape whose dictionaries all lie at
  addresses allocated during the merge, so none of them is a dictionary of the source,
  and the source is as it was.
\<close>

theorem merge_dicts_inserts_unless_raised_before:
  assumes "disjoint_trees h (TDict a kas) (TDict b (pre @ (k, tb) # post))"
    and "depth (TDict b (pre @ (k, tb) # post)) \<le> fuel"
    and "getitem h a k = None"
  shows "\<exists>res h'. merge_dicts le fuel h a b rc path = Some (res, h')
           \<and> (\<not> rc \<longrightarrow> res = Inr a)
           \<and> repr h' (TDict b (pre @ (k, tb) # post))
           \<and> (if rc \<and> (\<exists>p. conflict_at le kas pre p)
              then (\<exists>e. res = Inl e) \<and> getitem h' a k = None
              else (\<exists>t'. getitem h' a k = Some (root t') \<and> repr h' t' \<and> shape_of t' = shape_of tb
                      \<and> (\<forall>p\<in>set (addrs t'). length h \<le> p
                            \<and> p \<notin> set (addrs (TDict b (pre @ (k, tb) # post))))
                      \<and> (\<not> is_dict tb \<longrightarrow> t' = tb)))"
proof -
  let ?kbs = "pre @ (k, tb) # post"
  from assms(1) have ra: "repr h (TDict a kas)" and rb: "repr h (TDict b ?kbs)"
    by (simp_all add: disjoint_trees_def del: repr_TDict)
  from rb have dk: "distinct (map fst ?kbs)" by simp
  then have kpre: "k \<notin> fst ` set pre" and kpost: "k \<notin> fst ` set post"
    and dpre: "distinct (map fst pre)"
    by auto
  note src = source_facts [OF rb]
  from src(4) have rpre: "repr_items h pre" by (simp add: repr_items_def)
  from assms(3) getitem_repr [OF ra, of k] have ta: "map_of kas k = None" by simp
  from assms(2) obtain m where fuel: "fuel = Suc m" by (cases fuel) auto
  from ra have la: "a < length h" by simp
  have md: "merge_dicts le fuel h a b rc path = merge_keys le m (map fst ?kbs) h a b rc path"
    using fuel la src(1,2) by (simp add: merge_dicts_def)
  from assms(1,2) fuel have "merge_pre h a b m kas (?kbs @ [])" by (intro disjoint_trees_pre) simp_all
  then have pre1: "merge_pre h a b m kas (pre @ ((k, tb) # post))" by simp
  obtain res kas' n' where run: "merge_items le rc path (length h) kas ?kbs = (res, kas', n')"
    using prod_cases3 by blast
  from merge_dicts_sim [OF assms(1,2) run] obtain h' where
    h': "merge_dicts le fuel h a b rc path = Some (case res of Inl e \<Rightarrow> Inl e | Inr u \<Rightarrow> Inr a, h')"
      "merge_post h a kas ?kbs h' kas'"
    by auto
  have nr: "\<not> rc \<longrightarrow> (case res of Inl e \<Rightarrow> Inl e | Inr u \<Rightarrow> Inr a) = Inr a"
    using merge_items_no_raise [OF run] by auto
  have srcr: "repr h' (TDict b ?kbs)" using assms(1) h'(2) by (rule merge_post_source(1))
  obtain res1 kas1 n1 where run1: "merge_items le rc path (length h) kas pre = (res1, kas1, n1)"
    using prod_cases3 by blast
  from merge_keys_sim [OF run1 refl pre1] obtain h1 where
    r1: "merge_keys le m (map fst pre) h a b rc path
           = Some (case res1 of Inl e \<Rightarrow> Inl e | Inr u \<Rightarrow> Inr a, h1)"
    and l1: "length h1 = n1" and post1: "merge_post h a kas pre h1 kas1"
    and pre2: "res1 = Inr () \<longrightarrow> merge_pre h1 a b m kas1 ((k, tb) # post)"
    by blast
  have same1: "map_of kas1 k = None" using merge_items_untouched [OF run1 kpre] ta by simp
  note cf = merge_items_conflict [OF run1 rpre dpre]
  have app: "merge_keys le m (map fst ?kbs) h a b rc path =
     (case merge_keys le m (map fst pre) h a b rc path of
        None \<Rightarrow> None
      | Some (Inl e, h1) \<Rightarrow> Some (Inl e, h1)
      | Some (Inr r, h1) \<Rightarrow> merge_keys le m (k # map fst post) h1 a b rc path)"
    using merge_keys_append [of le m "map fst pre" "k # map fst post" h a b rc path] by simp
  show ?thesis
  proof (cases res1)
    case (Inl e1)
    with cf have cond: "rc \<and> (\<exists>p. conflict_at le kas pre p)" by auto
    from app r1 Inl md have "merge_dicts le fuel h a b rc path = Some (Inl e1, h1)" by simp
    with h'(1) have eq: "(case res of Inl e \<Rightarrow> Inl e | Inr u \<Rightarrow> Inr a) = Inl e1" "h' = h1" by simp_all
    have "getitem h1 a k = None" using getitem_post [OF post1, of k] same1 by simp
    with eq have "(\<exists>e. (case res of Inl e \<Rightarrow> Inl e | Inr u \<Rightarrow> Inr a) = Inl e) \<and> getitem h' a k = None"
      by simp
    with h'(1) nr srcr cond show ?thesis by auto
  next
    case (Inr u)
    then have res1: "res1 = Inr ()" by simp
    with cf have cond: "\<not> (rc \<and> (\<exists>p. conflict_at le kas pre p))" by auto
    from pre2 res1 have pre2': "merge_pre h1 a b m kas1 (((k, tb) # post) @ [])" by simp
    obtain res2 kas2 n2 where run2: "merge_items le rc path n1 kas1 ((k, tb) # post) = (res2, kas2, n2)"
      using prod_cases3 by blast
    from merge_keys_sim [OF run2 l1 [symmetric] pre2'] obtain h2 where
      r2: "merge_keys le m (map fst ((k, tb) # post)) h1 a b rc path
             = Some (case res2 of Inl e \<Rightarrow> Inl e | Inr u \<Rightarrow> Inr a, h2)"
      and post2: "merge_post h1 a kas1 ((k, tb) # post) h2 kas2"
      by blast
    from app r1 res1 r2 md have "merge_dicts le fuel h a b rc path
        = Some (case res2 of Inl e \<Rightarrow> Inl e | Inr u \<Rightarrow> Inr a, h2)"
      by simp
    with h'(1) have hh: "h' = h2" by simp
    from merge_items_head_insert [OF run2 kpost same1] obtain t' n3 where
      c: "copy_tree n1 tb = (t', n3)" and e: "map_of kas2 k = Some t'"
      by blast
    have ri: "repr_items h2 kas2" using post2 by (simp add: merge_post_def)
    have len: "length h \<le> n1" using post1 l1 by (simp add: merge_post_def)
    have g: "getitem h' a k = Some (root t')" using getitem_post [OF post2, of k] e hh by simp
    have r: "repr h' t'" using ri e hh by (simp add: map_of_repr)
    have s: "shape_of t' = shape_of tb" using c by (rule copy_tree_shape)
    have ad: "addrs t' = [n1..<n3]" using c by (rule copy_tree_addrs)
    have new: "\<forall>p\<in>set (addrs t'). length h \<le> p \<and> p \<notin> set (addrs (TDict b ?kbs))"
    proof
      fix p assume "p \<in> set (addrs t')"
      with ad len have l: "length h \<le> p" by simp
      have "p \<in> set (addrs (TDict b ?kbs)) \<Longrightarrow> p < length h" using rb by (rule repr_addrs_lt)
      with l show "length h \<le> p \<and> p \<notin> set (addrs (TDict b ?kbs))" by auto
    qed
    have lf: "\<not> is_dict tb \<longrightarrow> t' = tb" using c by (cases tb) (auto simp: copy_tree_def)
    from g r s new lf have ins: "\<exists>t'. getitem h' a k = Some (root t') \<and> repr h' t' \<and> shape_of t' = shape_of tb
                  \<and> (\<forall>p\<in>set (addrs t'). length h \<le> p \<and> p \<notin> set (addrs (TDict b ?kbs)))
                  \<and> (\<not> is_dict tb \<longrightarrow> t' = tb)"
      by blast
    show ?thesis
      apply (rule exI [of _ "case res of Inl e \<Rightarrow> Inl e | Inr u \<Rightarrow> Inr a"], rule exI [of _ h'])
      apply (intro conjI h'(1) nr srcr)
      using cond ins apply (simp only: if_False)
      done
  qed
qed

theorem merge_dicts_inserts_unless_raised_before_witness:
  "disjoint_trees [[(''x'', Leaf (1::int))], [(''v'', Leaf 4), (''w'', Ref 2), (''x'', Leaf 2)], [(''q'', Leaf 1)]]
     (TDict 0 [(''x'', TLeaf (1::int))]) (TDict 1 ([(''v'', TLeaf (4::int))] @ (''w'', (TDict 2 [(''q'', TLeaf (1::int))])) # [(''x'', TLeaf (2::int))]))
   \<and> depth (TDict 1 ([(''v'', TLeaf (4::int))] @ (''w'', (TDict 2 [(''q'', TLeaf (1::int))])) # [(''x'', TLeaf (2::int))])) \<le> 2
   \<and> getitem [[(''x'', Leaf (1::int))], [(''v'', Leaf 4), (''w'', Ref 2), (''x'', Leaf 2)], [(''q'', Leaf 1)]] 0 ''w'' = None
   \<and> merge_dicts (=) 2 [[(''x'', Leaf (1::int))], [(''v'', Leaf 4), (''w'', Ref 2), (''x'', Leaf 2)], [(''q'', Leaf 1)]] 0 1 True []
       = Some (Inl (LookupError (''Conflict at '' @ [CHR 0x27] @ ''x'' @ [CHR 0x27])),
               [[(''x'', Leaf (1::int)), (''v'', Leaf 4), (''w'', Ref 3)], [(''v'', Leaf 4), (''w'', Ref 2), (''x'', Leaf 2)], [(''q'', Leaf 1)],
                [(''q'', Leaf 1)]])
   \<and> (\<exists>res h'. merge_dicts (=) 2 [[(''x'', Leaf (1::int))], [(''v'', Leaf 4), (''w'', Ref 2), (''x'', Leaf 2)], [(''q'', Leaf 1)]] 0 1 True [] = Some (res, h')
           \<and> (\<not> True \<longrightarrow> res = Inr 0)
           \<and> repr h' (TDict 1 ([(''v'', TLeaf (4::int))] @ (''w'', (TDict 2 [(''q'', TLeaf (1::int))])) # [(''x'', TLeaf (2::int))]))
           \<and> (if True \<and> (\<exists>p. conflict_at (=) [(''x'', TLeaf (1::int))] [(''v'', TLeaf (4::int))] p)
              then (\<exists>e. res = Inl e) \<and> getitem h' 0 ''w'' = None
              else (\<exists>t'. getitem h' 0 ''w'' = Some (root t') \<and> repr h' t' \<and> shape_of t' = shape_of (TDict 2 [(''q'', TLeaf (1::int))])
                      \<and> (\<forall>p\<in>set (addrs t'). length [[(''x'', Leaf (1::int))], [(''v'', Leaf 4), (''w'', Ref 2), (''x'', Leaf 2)], [(''q'', Leaf 1)]] \<le> p
                            \<and> p \<notin> set (addrs (TDict 1 ([(''v'', TLeaf (4::int))] @ (''w'', (TDict 2 [(''q'', TLeaf (1::int))])) # [(''x'', TLeaf (2::int))]))))
                      \<and> (\<not> is_dict (TDict 2 [(''q'', TLeaf (1::int))]) \<longrightarrow> t' = (TDict 2 [(''q'', TLeaf (1::int))])))))"
proof -
  let ?h = "[[(''x'', Leaf (1::int))], [(''v'', Leaf 4), (''w'', Ref 2), (''x'', Leaf 2)], [(''q'', Leaf 1)]]"
  let ?kas = "[(''x'', TLeaf (1::int))]"
  let ?pre = "[(''v'', TLeaf (4::int))]"
  let ?tb = "TDict 2 [(''q'', TLeaf (1::int))]"
  let ?post = "[(''x'', TLeaf (2::int))]"
  have d: "disjoint_trees ?h (TDict 0 ?kas) (TDict 1 (?pre @ (''w'', ?tb) # ?post))"
    by (simp add: disjoint_trees_def)
  have f: "depth (TDict 1 (?pre @ (''w'', ?tb) # ?post)) \<le> 2"
    by simp
  have x: "getitem ?h 0 ''w'' = None"
    by (simp add: getitem_def)
  have e: "merge_dicts (=) 2 ?h 0 1 True []
       = Some (Inl (LookupError (''Conflict at '' @ [CHR 0x27] @ ''x'' @ [CHR 0x27])),
               [[(''x'', Leaf (1::int)), (''v'', Leaf 4), (''w'', Ref 3)], [(''v'', Leaf 4), (''w'', Ref 2), (''x'', Leaf 2)], [(''q'', Leaf 1)],
                [(''q'', Leaf 1)]])"
    by (simp add: merge_dicts_def numeral_2_eq_2 merge_keys.simps deepcopy_def setitem_def conflict_msg_def)
  note c = merge_dicts_inserts_unless_raised_before [OF d f x, of "(=)" True "[]"]
  show ?thesis by (rule conjI [OF d conjI [OF f conjI [OF x conjI [OF e c]]]])
qed

text \<open>
  The source has the key \<open>k\<close> and the target has not, but the key \<open>x\<close> before it
  conflicts: with \<open>raise_conflicts\<close> the merge raises there, and the target is left
  without \<open>k\<close>.
\<close>

theorem merge_dicts_raise_leaves_key_absent:
  "getitem [[(''x'', Leaf (1::int))], [(''w'', Leaf 5), (''x'', Leaf 2), (''k'', Leaf 3)]] 1 ''k'' = Some (Leaf 3)
   \<and> getitem [[(''x'', Leaf (1::int))], [(''w'', Leaf 5), (''x'', Leaf 2), (''k'', Leaf 3)]] 0 ''k'' = None
   \<and> merge_dicts (=) 1 [[(''x'', Leaf (1::int))], [(''w'', Leaf 5), (''x'', Leaf 2), (''k'', Leaf 3)]] 0 1 True []
       = Some (Inl (LookupError (''Conflict at '' @ [CHR 0x27] @ ''x'' @ [CHR 0x27])),
               [[(''x'', Leaf (1::int)), (''w'', Leaf 5)], [(''w'', Leaf 5), (''x'', Leaf 2), (''k'', Leaf 3)]])
   \<and> getitem [[(''x'', Leaf (1::int)), (''w'', Leaf 5)], [(''w'', Leaf 5), (''x'', Leaf 2), (''k'', Leaf 3)]] 0 ''k'' = None"
  by (simp add: merge_dicts_def getitem_def setitem_def merge_keys.simps conflict_msg_def)

text \<open>
  C6. Without \<open>raise_conflicts\<close>, merging the source a second time changes nothing: the
  second merge of the source into the result returns with the heap as the first
  merge left it, and so does the merge of the source into a deep copy of the result,
  which has the shape of the result. The tree after the second merge is the tree
  after the first.
\<close>

theorem merge_dicts_idempotent:
  assumes "disjoint_trees h (TDict a kas) (TDict b kbs)" and "depth (TDict b kbs) \<le> fuel"
  shows "\<exists>h1 t1. merge_dicts le fuel h a b False path = Some (Inr a, h1)
           \<and> repr h1 t1 \<and> root t1 = Ref a
           \<and> merge_dicts le fuel h1 a b False path2 = Some (Inr a, h1)
           \<and> (\<forall>fuel2. depth t1 \<le> fuel2 \<longrightarrow>
                (\<exists>h2 c t2. deepcopy fuel2 h1 a = Some (h2, c) \<and> repr h2 t2 \<and> root t2 = Ref c
                   \<and> shape_of t2 = shape_of t1
                   \<and> merge_dicts le fuel h2 c b False path2 = Some (Inr c, h2)))"
proof -
  from assms(1) have rb: "repr h (TDict b kbs)" by (simp add: disjoint_trees_def del: repr_TDict)
  then have rk: "repr_items h kbs" "distinct (map fst kbs)" by simp_all
  obtain res kas' n' where run: "merge_items le False path (length h) kas kbs = (res, kas', n')"
    using prod_cases3 by blast
  from merge_items_no_raise [OF run] have res: "res = Inr ()" by simp
  from merge_dicts_sim [OF assms run] res obtain h1 where
    h1: "merge_dicts le fuel h a b False path = Some (Inr a, h1)" "merge_post h a kas kbs h1 kas'"
    by auto
  from assms(1) have "a < length h" by (simp add: disjoint_trees_def)
  with h1(2) have r1: "repr h1 (TDict a kas')" by (simp add: merge_post_def)
  have s1: "repr h1 (TDict b kbs)" using assms(1) h1(2) by (rule merge_post_source(1))
  have ab: "absorbed le kas' kbs" using run _ rk by (rule merge_items_absorbed) simp
  have again: "merge_dicts le fuel h1 a b False path2 = Some (Inr a, h1)"
    using ab r1 s1 assms(2) by (rule merge_dicts_absorbed)
  have copy: "\<forall>fuel2. depth (TDict a kas') \<le> fuel2 \<longrightarrow>
      (\<exists>h2 c t2. deepcopy fuel2 h1 a = Some (h2, c) \<and> repr h2 t2 \<and> root t2 = Ref c
         \<and> shape_of t2 = shape_of (TDict a kas')
         \<and> merge_dicts le fuel h2 c b False path2 = Some (Inr c, h2))"
  proof (intro allI impI)
    fix fuel2 assume f2: "depth (TDict a kas') \<le> fuel2"
    obtain cs n2 where c: "copy_tree_items (Suc (length h1)) kas' = (cs, n2)" by force
    from deepcopy_sim [OF r1 f2 c] obtain h2 where
      h2: "deepcopy fuel2 h1 a = Some (h2, length h1)" "length h2 = n2"
        "repr h2 (TDict (length h1) cs)" "\<forall>q<length h1. h2 ! q = h1 ! q"
      by blast
    have sh: "shape_of (TDict (length h1) cs) = shape_of (TDict a kas')"
      using copy_tree_items_shape [OF c] by simp
    have s2: "repr h2 (TDict b kbs)"
    proof (rule repr_frame [OF s1])
      show "length h1 \<le> length h2" using h2(2) copy_tree_items_mono [OF c] by simp
    next
      fix p assume "p \<in> set (addrs (TDict b kbs))"
      with s1 have "p < length h1" by (rule repr_addrs_lt)
      with h2(4) show "h2 ! p = h1 ! p" by simp
    qed
    have "absorbed le cs kbs" using ab c by (rule absorbed_copy_target)
    then have "merge_dicts le fuel h2 (length h1) b False path2 = Some (Inr (length h1), h2)"
      using h2(3) s2 assms(2) by (rule merge_dicts_absorbed)
    with h2(1,3) sh show "\<exists>h2 c t2. deepcopy fuel2 h1 a = Some (h2, c) \<and> repr h2 t2 \<and> root t2 = Ref c
         \<and> shape_of t2 = shape_of (TDict a kas')
         \<and> merge_dicts le fuel h2 c b False path2 = Some (Inr c, h2)"
      by (intro exI [of _ h2] exI [of _ "length h1"] exI [of _ "TDict (length h1) cs"]) simp
  qed
  have "root (TDict a kas') = Ref a" by simp
  with h1(1) r1 again copy show ?thesis by blast
qed

theorem merge_dicts_idempotent_witness:
  "disjoint_trees [[(''x'', Leaf (1::int))], [(''x'', Ref 2), (''z'', Leaf 2)], [(''y'', Leaf 1)]]
     (TDict 0 [(''x'', TLeaf 1)]) (TDict 1 [(''x'', TDict 2 [(''y'', TLeaf 1)]), (''z'', TLeaf 2)])
   \<and> depth (TDict 1 [(''x'', TDict 2 [(''y'', TLeaf (1::int))]), (''z'', TLeaf 2)]) \<le> 2
   \<and> merge_dicts (=) 2 [[(''x'', Leaf (1::int))], [(''x'', Ref 2), (''z'', Leaf 2)], [(''y'', Leaf 1)]] 0 1 False []
       = Some (Inr 0, [[(''x'', Ref 2), (''z'', Leaf 2)], [(''x'', Ref 2), (''z'', Leaf 2)], [(''y'', Leaf 1)]])
   \<and> merge_dicts (=) 2 [[(''x'', Ref 2), (''z'', Leaf (2::int))], [(''x'', Ref 2), (''z'', Leaf 2)], [(''y'', Leaf 1)]] 0 1 False []
       = Some (Inr 0, [[(''x'', Ref 2), (''z'', Leaf 2)], [(''x'', Ref 2), (''z'', Leaf 2)], [(''y'', Leaf 1)]])
   \<and> (\<exists>h1 t1. merge_dicts (=) 2 [[(''x'', Leaf (1::int))], [(''x'', Ref 2), (''z'', Leaf 2)], [(''y'', Leaf 1)]] 0 1 False []
           = Some (Inr 0, h1)
         \<and> repr h1 t1 \<and> root t1 = Ref 0
         \<and> merge_dicts (=) 2 h1 0 1 False [] = Some (Inr 0, h1)
         \<and> (\<forall>fuel2. depth t1 \<le> fuel2 \<longrightarrow>
              (\<exists>h2 c t2. deepcopy fuel2 h1 0 = Some (h2, c) \<and> repr h2 t2 \<and> root t2 = Ref c
                 \<and> shape_of t2 = shape_of t1
                 \<and> merge_dicts (=) 2 h2 c 1 False [] = Some (Inr c, h2))))"
proof -
  let ?h = "[[(''x'', Leaf (1::int))], [(''x'', Ref 2), (''z'', Leaf 2)], [(''y'', Leaf 1)]]"
  have d: "disjoint_trees ?h
     (TDict 0 [(''x'', TLeaf 1)]) (TDict 1 [(''x'', TDict 2 [(''y'', TLeaf 1)]), (''z'', TLeaf 2)])"
    by (simp add: disjoint_trees_def)
  have f: "depth (TDict 1 [(''x'', TDict 2 [(''y'', TLeaf (1::int))]), (''z'', TLeaf 2)]) \<le> 2"
    by simp
  have e1: "merge_dicts (=) 2 ?h 0 1 False []
       = Some (Inr 0, [[(''x'', Ref 2), (''z'', Leaf 2)], [(''x'', Ref 2), (''z'', Leaf 2)], [(''y'', Leaf 1)]])"
    by (simp add: merge_dicts_def numeral_2_eq_2 merge_keys.simps setitem_def)
  have e2: "merge_dicts (=) 2 [[(''x'', Ref 2), (''z'', Leaf (2::int))], [(''x'', Ref 2), (''z'', Leaf 2)], [(''y'', Leaf 1)]] 0 1 False []
       = Some (Inr 0, [[(''x'', Ref 2), (''z'', Leaf 2)], [(''x'', Ref 2), (''z'', Leaf 2)], [(''y'', Leaf 1)]])"
    by (simp add: merge_dicts_def numeral_2_eq_2 merge_keys.simps setitem_def)
  note c = merge_dicts_idempotent [OF d f, of "(=)" "[]" "[]"]
  show ?thesis by (rule conjI [OF d conjI [OF f conjI [OF e1 conjI [OF e2 c]]]])
qed

text \<open>
  C7. When \<open>merge_dicts\<close> with \<open>raise_conflicts\<close> raises, the error names a conflict of
  the two trees, at a key path \<open>p\<close> of any depth, and the merge has stopped there.
  The final heap is the one left by merging, in each dictionary along \<open>p\<close>, the keys of
  the source that come before the key on the path (\<open>merged_before\<close>): what was merged
  stays merged, and nothing else was run. In each target dictionary along \<open>p\<close> the
  entry for the key on the path is the one of the initial heap, and so is the entry
  for every later key of the source, with every dictionary below it; at the end of
  \<open>p\<close> the entry is the conflicting one, unchanged with all that lies below it
  (\<open>stopped_at\<close>).
\<close>

theorem merge_dicts_fails_fast:
  assumes "disjoint_trees h (TDict a kas) (TDict b kbs)" and "depth (TDict b kbs) \<le> fuel"
    and "merge_dicts le fuel h a b True path = Some (Inl e, h')"
  shows "\<exists>p. e = LookupError (conflict_msg (path @ p)) \<and> conflict_at le kas kbs p
           \<and> merged_before le fuel h a b path p = Some h' \<and> stopped_at h h' a kas kbs p"
proof -
  from assms(1) have rb: "repr h (TDict b kbs)"
    by (simp add: disjoint_trees_def del: repr_TDict)
  note src = source_facts [OF rb]
  from assms(2) obtain m where fuel: "fuel = Suc m" by (cases fuel) auto
  from assms(3) fuel src(2) have whole: "merge_keys le m (map fst kbs) h a b True path = Some (Inl e, h')"
    by (simp add: merge_dicts_def split: if_splits)
  from assms fuel have "merge_pre h a b m kas (kbs @ [])" by (intro disjoint_trees_pre) simp_all
  then have pre0: "merge_pre h a b m kas kbs" by simp
  from merge_keys_stops [OF pre0 src(2) whole] fuel show ?thesis by simp
qed

theorem merge_dicts_fails_fast_witness:
  "disjoint_trees
     [[(''x'', Ref 2)], [(''w'', Leaf 5), (''x'', Ref 3), (''u'', Leaf 9)],
      [(''y'', Leaf (1::int)), (''z'', Ref 4)], [(''v'', Leaf 7), (''y'', Leaf 2), (''z'', Ref 5)],
      [(''q'', Leaf 1)], [(''r'', Leaf 3)]]
     (TDict 0 [(''x'', TDict 2 [(''y'', TLeaf (1::int)), (''z'', TDict 4 [(''q'', TLeaf 1)])])])
     (TDict 1 [(''w'', TLeaf (5::int)),
      (''x'', TDict 3 [(''v'', TLeaf 7), (''y'', TLeaf 2), (''z'', TDict 5 [(''r'', TLeaf 3)])]),
      (''u'', TLeaf 9)])
   \<and> depth (TDict 1 [(''w'', TLeaf (5::int)),
      (''x'', TDict 3 [(''v'', TLeaf 7), (''y'', TLeaf 2), (''z'', TDict 5 [(''r'', TLeaf 3)])]),
      (''u'', TLeaf 9)]) \<le> 3
   \<and> merge_dicts (=) 3
        [[(''x'', Ref 2)], [(''w'', Leaf 5), (''x'', Ref 3), (''u'', Leaf 9)],
      [(''y'', Leaf (1::int)), (''z'', Ref 4)], [(''v'', Leaf 7), (''y'', Leaf 2), (''z'', Ref 5)],
      [(''q'', Leaf 1)], [(''r'', Leaf 3)]] 0 1 True []
       = Some (Inl (LookupError (''Conflict at '' @ [CHR 0x27] @ ''x.y'' @ [CHR 0x27])),
               [[(''x'', Ref 2), (''w'', Leaf 5)], [(''w'', Leaf 5), (''x'', Ref 3), (''u'', Leaf 9)],
      [(''y'', Leaf (1::int)), (''z'', Ref 4), (''v'', Leaf 7)], [(''v'', Leaf 7), (''y'', Leaf 2), (''z'', Ref 5)],
      [(''q'', Leaf 1)], [(''r'', Leaf 3)]])
   \<and> (\<exists>p. (LookupError (''Conflict at '' @ [CHR 0x27] @ ''x.y'' @ [CHR 0x27])) = LookupError (conflict_msg ([] @ p)) \<and> conflict_at (=) [(''x'', TDict 2 [(''y'', TLeaf (1::int)), (''z'', TDict 4 [(''q'', TLeaf 1)])])] [(''w'', TLeaf (5::int)),
      (''x'', TDict 3 [(''v'', TLeaf 7), (''y'', TLeaf 2), (''z'', TDict 5 [(''r'', TLeaf 3)])]),
      (''u'', TLeaf 9)] p
           \<and> merged_before (=) 3 [[(''x'', Ref 2)], [(''w'', Leaf 5), (''x'', Ref 3), (''u'', Leaf 9)],
      [(''y'', Leaf (1::int)), (''z'', Ref 4)], [(''v'', Leaf 7), (''y'', Leaf 2), (''z'', Ref 5)],
      [(''q'', Leaf 1)], [(''r'', Leaf 3)]] 0 1 [] p = Some [[(''x'', Ref 2), (''w'', Leaf 5)], [(''w'', Leaf 5), (''x'', Ref 3), (''u'', Leaf 9)],
      [(''y'', Leaf (1::int)), (''z'', Ref 4), (''v'', Leaf 7)], [(''v'', Leaf 7), (''y'', Leaf 2), (''z'', Ref 5)],
      [(''q'', Leaf 1)], [(''r'', Leaf 3)]] \<and> stopped_at [[(''x'', Ref 2)], [(''w'', Leaf 5), (''x'', Ref 3), (''u'', Leaf 9)],
      [(''y'', Leaf (1::int)), (''z'', Ref 4)], [(''v'', Leaf 7), (''y'', Leaf 2), (''z'', Ref 5)],
      [(''q'', Leaf 1)], [(''r'', Leaf 3)]] [[(''x'', Ref 2), (''w'', Leaf 5)], [(''w'', Leaf 5), (''x'', Ref 3), (''u'', Leaf 9)],
      [(''y'', Leaf (1::int)), (''z'', Ref 4), (''v'', Leaf 7)], [(''v'', Leaf 7), (''y'', Leaf 2), (''z'', Ref 5)],
      [(''q'', Leaf 1)], [(''r'', Leaf 3)]] 0 [(''x'', TDict 2 [(''y'', TLeaf (1::int)), (''z'', TDict 4 [(''q'', TLeaf 1)])])] [(''w'', TLeaf (5::int)),
      (''x'', TDict 3 [(''v'', TLeaf 7), (''y'', TLeaf 2), (''z'', TDict 5 [(''r'', TLeaf 3)])]),
      (''u'', TLeaf 9)] p)"
proof -
  let ?h = "[[(''x'', Ref 2)], [(''w'', Leaf 5), (''x'', Ref 3), (''u'', Leaf 9)],
      [(''y'', Leaf (1::int)), (''z'', Ref 4)], [(''v'', Leaf 7), (''y'', Leaf 2), (''z'', Ref 5)],
      [(''q'', Leaf 1)], [(''r'', Leaf 3)]]"
  let ?h' = "[[(''x'', Ref 2), (''w'', Leaf 5)], [(''w'', Leaf 5), (''x'', Ref 3), (''u'', Leaf 9)],
      [(''y'', Leaf (1::int)), (''z'', Ref 4), (''v'', Leaf 7)], [(''v'', Leaf 7), (''y'', Leaf 2), (''z'', Ref 5)],
      [(''q'', Leaf 1)], [(''r'', Leaf 3)]]"
  let ?kas = "[(''x'', TDict 2 [(''y'', TLeaf (1::int)), (''z'', TDict 4 [(''q'', TLeaf 1)])])]"
  let ?kbs = "[(''w'', TLeaf (5::int)),
      (''x'', TDict 3 [(''v'', TLeaf 7), (''y'', TLeaf 2), (''z'', TDict 5 [(''r'', TLeaf 3)])]),
      (''u'', TLeaf 9)]"
  let ?e = "LookupError (''Conflict at '' @ [CHR 0x27] @ ''x.y'' @ [CHR 0x27])"
  have d: "disjoint_trees ?h (TDict 0 ?kas) (TDict 1 ?kbs)"
    by (simp add: disjoint_trees_def)
  have f: "depth (TDict 1 ?kbs) \<le> 3"
    by simp
  have e: "merge_dicts (=) 3 ?h 0 1 True [] = Some (Inl ?e, ?h')"
    by (simp add: merge_dicts_def numeral_3_eq_3 merge_keys.simps setitem_def conflict_msg_def)
  note c = merge_dicts_fails_fast [OF d f e]
  show ?thesis by (rule conjI [OF d conjI [OF f conjI [OF e c]]])
qed

text \<open>
  C8. On a heap that holds the target and the source as disjoint trees, with fuel for
  the depth of the source, \<open>merge_dicts\<close> terminates under either policy: it returns
  the target, or it raises the exception of a conflict.
\<close>

theorem merge_dicts_terminates:
  assumes "disjoint_trees h (TDict a kas) (TDict b kbs)" and "depth (TDict b kbs) \<le> fuel"
  shows "\<exists>res h'. merge_dicts le fuel h a b rc path = Some (res, h')
           \<and> (res = Inr a \<or> (\<exists>p. res = Inl (LookupError (conflict_msg (path @ p)))))"
proof -
  obtain res kas' n' where run: "merge_items le rc path (length h) kas kbs = (res, kas', n')"
    using prod_cases3 by blast
  from merge_dicts_sim [OF assms run] obtain h' where
    h': "merge_dicts le fuel h a b rc path = Some (case res of Inl e \<Rightarrow> Inl e | Inr u \<Rightarrow> Inr a, h')"
    by blast
  from assms(1) have "repr_items h kbs" "distinct (map fst kbs)" by (simp_all add: disjoint_trees_def)
  from merge_items_conflict [OF run this] h' show ?thesis by (cases res) auto
qed

theorem merge_dicts_terminates_witness:
  "disjoint_trees [[(''x'', Ref 2)], [(''x'', Ref 3)], [(''y'', Leaf (1::int))], [(''y'', Leaf 2)]]
     (TDict 0 [(''x'', TDict 2 [(''y'', TLeaf 1)])]) (TDict 1 [(''x'', TDict 3 [(''y'', TLeaf 2)])])
   \<and> depth (TDict 1 [(''x'', TDict 3 [(''y'', TLeaf (2::int))])]) \<le> 2
   \<and> (\<exists>res h'. merge_dicts (=) 2 [[(''x'', Ref 2)], [(''x'', Ref 3)], [(''y'', Leaf (1::int))], [(''y'', Leaf 2)]]
          0 1 True [] = Some (res, h')
        \<and> (res = Inr 0 \<or> (\<exists>p. res = Inl (LookupError (conflict_msg ([] @ p))))))"
proof -
  have d: "disjoint_trees [[(''x'', Ref 2)], [(''x'', Ref 3)], [(''y'', Leaf (1::int))], [(''y'', Leaf 2)]]
     (TDict 0 [(''x'', TDict 2 [(''y'', TLeaf 1)])]) (TDict 1 [(''x'', TDict 3 [(''y'', TLeaf 2)])])"
    by (simp add: disjoint_trees_def)
  have f: "depth (TDict 1 [(''x'', TDict 3 [(''y'', TLeaf (2::int))])]) \<le> 2"
    by simp
  from d f merge_dicts_terminates [OF d f, of "(=)" True "[]"] show ?thesis by blast
qed

subsection \<open>The claims on format_instance_name and the shared dictionary\<close>

lemma find_instance_find:
  "list_all has_name instances \<Longrightarrow>
   find_instance name instances = Inr (List.find (name_is name) instances)"
  by (induction instances) (auto simp: has_name_def name_is_def)

lemma format_of_find:
  "find_instance name instances = Inr (Some i) \<Longrightarrow> options_ok i \<Longrightarrow>
   format_instance_name name platform instances =
     (if declares_no_options i then Inr (Some name)
      else if appends_platform i then Inr (Some (name @ ''-'' @ platform))
      else Inr (Some name))"
  by (auto simp: format_instance_name_def options_ok_def declares_no_options_def
        appends_platform_def split: pyval.splits)

lemma find_Some_mem: "List.find P xs = Some x \<Longrightarrow> x \<in> set xs"
  by (induction xs) (auto split: if_splits)

text \<open>
  C9. On records that all carry a \<open>name\<close> field and whose \<open>options\<close>, when declared,
  are a dictionary, \<open>format_instance_name\<close> selects the first record, in sequence order,
  whose name is the given one. It returns nothing when there is none, the name when
  the record declares no options, the name, a dash and the platform when the options
  enable \<open>append_platform_to_hostname\<close>, and the name otherwise.
\<close>

theorem format_instance_name_first_match:
  assumes "list_all has_name instances" and "list_all options_ok instances"
  shows "format_instance_name name platform instances =
     (case List.find (name_is name) instances of
        None \<Rightarrow> Inr None
      | Some i \<Rightarrow>
          if declares_no_options i then Inr (Some name)
          else if appends_platform i then Inr (Some (name @ ''-'' @ platform))
          else Inr (Some name))"
proof (cases "List.find (name_is name) instances")
  case None
  with assms(1) show ?thesis
    by (simp add: find_instance_find format_instance_name_def)
next
  case (Some i)
  with assms(1) have f: "find_instance name instances = Inr (Some i)"
    by (simp add: find_instance_find)
  from Some have "i \<in> set instances" by (rule find_Some_mem)
  with assms(2) have "options_ok i" by (simp add: list_all_iff)
  with f Some show ?thesis by (simp add: format_of_find)
qed

theorem format_instance_name_first_match_witness:
  "format_instance_name ''web'' ''ec2''
     [[(''name'', PStr ''db''), (''options'', PDict [(''append_platform_to_hostname'', PBool True)])],
      [(''name'', PStr ''web''), (''options'', PDict [(''append_platform_to_hostname'', PBool True)])],
      [(''name'', PStr ''web'')]]
   = Inr (Some ''web-ec2'')
   \<and> format_instance_name ''web'' ''ec2'' [[(''name'', PStr ''web'')]] = Inr (Some ''web'')
   \<and> format_instance_name ''web'' ''ec2''
        [[(''name'', PStr ''web''), (''options'', PDict [(''append_platform_to_hostname'', PBool False)])]]
      = Inr (Some ''web'')
   \<and> format_instance_name ''web'' ''ec2'' [[(''name'', PStr ''db'')]] = Inr None"
  using format_instance_name_first_match [of
      "[[(''name'', PStr ''db''), (''options'', PDict [(''append_platform_to_hostname'', PBool True)])],
        [(''name'', PStr ''web''), (''options'', PDict [(''append_platform_to_hostname'', PBool True)])],
        [(''name'', PStr ''web'')]]" "''web''" "''ec2''"]
    format_instance_name_first_match [of "[[(''name'', PStr ''web'')]]" "''web''" "''ec2''"]
    format_instance_name_first_match [of
      "[[(''name'', PStr ''web''), (''options'', PDict [(''append_platform_to_hostname'', PBool False)])]]"
      "''web''" "''ec2''"]
    format_instance_name_first_match [of "[[(''name'', PStr ''db'')]]" "''web''" "''ec2''"]
  by (simp add: has_name_def options_ok_def dict_get_def name_is_def declares_no_options_def
        appends_platform_def)

lemma find_instance_KeyError_iff:
  "find_instance name instances = Inl e \<longleftrightarrow>
     e = KeyError ''name'' \<and>
     (\<exists>pre r post. instances = pre @ r # post \<and> \<not> list_ex (name_is name) pre \<and> \<not> has_name r)"
proof (induction instances)
  case Nil
  then show ?case by simp
next
  case (Cons i instances)
  show ?case
  proof (cases "map_of i ''name''")
    case None
    then have "\<not> has_name i" by (simp add: has_name_def)
    then have "(i # instances) = [] @ i # instances \<and> \<not> list_ex (name_is name) [] \<and> \<not> has_name i"
      by simp
    then have "\<exists>pre r post. i # instances = pre @ r # post \<and> \<not> list_ex (name_is name) pre \<and> \<not> has_name r"
      by blast
    with None show ?thesis by auto
  next
    case (Some v)
    show ?thesis
    proof (cases "v = PStr name")
      case True
      with Some have n: "name_is name i" "has_name i" by (simp_all add: name_is_def has_name_def)
      have "\<not> (\<exists>pre r post. i # instances = pre @ r # post \<and> \<not> list_ex (name_is name) pre \<and> \<not> has_name r)"
      proof
        assume "\<exists>pre r post. i # instances = pre @ r # post \<and> \<not> list_ex (name_is name) pre \<and> \<not> has_name r"
        then obtain pre r post where *: "i # instances = pre @ r # post"
          "\<not> list_ex (name_is name) pre" "\<not> has_name r" by blast
        show False
        proof (cases pre)
          case Nil
          with * n show False by simp
        next
          case (Cons x xs)
          with * n show False by simp
        qed
      qed
      with Some True show ?thesis by simp
    next
      case False
      with Some have n: "\<not> name_is name i" "has_name i" by (simp_all add: name_is_def has_name_def)
      have "(\<exists>pre r post. i # instances = pre @ r # post \<and> \<not> list_ex (name_is name) pre \<and> \<not> has_name r)
        \<longleftrightarrow> (\<exists>pre r post. instances = pre @ r # post \<and> \<not> list_ex (name_is name) pre \<and> \<not> has_name r)"
        (is "?L \<longleftrightarrow> ?R")
      proof
        assume ?L
        then obtain pre r post where *: "i # instances = pre @ r # post"
          "\<not> list_ex (name_is name) pre" "\<not> has_name r" by blast
        show ?R
        proof (cases pre)
          case Nil
          with * n show ?thesis by simp
        next
          case (Cons x xs)
          with * have "instances = xs @ r # post" "\<not> list_ex (name_is name) xs" by simp_all
          with *(3) show ?thesis by blast
        qed
      next
        assume ?R
        then obtain pre r post where *: "instances = pre @ r # post"
          "\<not> list_ex (name_is name) pre" "\<not> has_name r" by blast
        with n have "i # instances = (i # pre) @ r # post" "\<not> list_ex (name_is name) (i # pre)"
          by simp_all
        with *(3) show ?L by blast
      qed
      with Some False Cons.IH show ?thesis by simp
    qed
  qed
qed

lemma format_KeyError_find:
  "format_instance_name name platform instances = Inl (KeyError k) \<longleftrightarrow>
   find_instance name instances = Inl (KeyError k)"
  by (auto simp: format_instance_name_def split: sum.splits option.splits pyval.splits)

text \<open>
  C10. \<open>format_instance_name\<close> raises \<open>KeyError\<close> exactly when some record without a
  \<open>name\<close> field is reached by the search, that is, when no record before it has the
  given name (any record at all, when no record matches). When every record carries a
  \<open>name\<close> field the search returns its result and \<open>KeyError\<close> is not raised.
\<close>

theorem format_instance_name_KeyError:
  "(format_instance_name name platform instances = Inl (KeyError k) \<longleftrightarrow>
      k = ''name'' \<and>
      (\<exists>pre r post. instances = pre @ r # post \<and> \<not> list_ex (name_is name) pre \<and> \<not> has_name r))
   \<and> (list_all has_name instances \<longrightarrow>
        find_instance name instances = Inr (List.find (name_is name) instances)
        \<and> format_instance_name name platform instances \<noteq> Inl (KeyError k))"
  by (auto simp: format_KeyError_find find_instance_KeyError_iff find_instance_find)

theorem format_instance_name_KeyError_witness:
  "format_instance_name ''web'' ''ec2'' [[(''name'', PStr ''db'')], [(''options'', PNone)], [(''name'', PStr ''web'')]]
     = Inl (KeyError ''name'')
   \<and> format_instance_name ''web'' ''ec2'' [[(''name'', PStr ''db'')], [(''options'', PNone)]]
     = Inl (KeyError ''name'')
   \<and> format_instance_name ''web'' ''ec2'' [[(''name'', PStr ''web'')], [(''options'', PNone)]]
     \<noteq> Inl (KeyError ''name'')
   \<and> list_all has_name [[(''name'', PStr ''db'')], [(''name'', PStr ''web'')]]
   \<and> find_instance ''web'' [[(''name'', PStr ''db'')], [(''name'', PStr ''web'')]]
       = Inr (Some [(''name'', PStr ''web'')])"
proof -
  have a: "\<exists>pre r post. [[(''name'', PStr ''db'')], [(''options'', PNone)], [(''name'', PStr ''web'')]] = pre @ r # post
      \<and> \<not> list_ex (name_is ''web'') pre \<and> \<not> has_name r"
    by (rule exI [of _ "[[(''name'', PStr ''db'')]]"], rule exI [of _ "[(''options'', PNone)]"],
        rule exI [of _ "[[(''name'', PStr ''web'')]]"]) (simp add: name_is_def has_name_def)
  have b: "\<exists>pre r post. [[(''name'', PStr ''db'')], [(''options'', PNone)]] = pre @ r # post
      \<and> \<not> list_ex (name_is ''web'') pre \<and> \<not> has_name r"
    by (rule exI [of _ "[[(''name'', PStr ''db'')]]"], rule exI [of _ "[(''options'', PNone)]"],
        rule exI [of _ "[]"]) (simp add: name_is_def has_name_def)
  have c: "list_all has_name [[(''name'', PStr ''db'')], [(''name'', PStr ''web'')]]"
    by (simp add: has_name_def)
  show ?thesis
    using a b c
      format_instance_name_KeyError [of "''web''" "''ec2''"
        "[[(''name'', PStr ''db'')], [(''options'', PNone)], [(''name'', PStr ''web'')]]" "''name''"]
      format_instance_name_KeyError [of "''web''" "''ec2''"
        "[[(''name'', PStr ''db'')], [(''options'', PNone)]]" "''name''"]
      format_instance_name_KeyError [of "''web''" "''ec2''"
        "[[(''name'', PStr ''db'')], [(''name'', PStr ''web'')]]" "''name''"]
    by (simp add: name_is_def format_instance_name_def dict_get_def)
qed

text \<open>
  C1, at the input \<open>A = {"x": 1}\<close>, \<open>B = {"x": {"y": 1}}\<close> (\<open>A\<close> at address 0, \<open>B\<close> at
  address 1, \<open>B["x"]\<close> at address 2) without \<open>raise_conflicts\<close>: the merge returns \<open>A\<close>
  with \<open>A["x"]\<close> the very dictionary \<open>B["x"]\<close>, not a copy, so the assignment
  \<open>A["x"]["y"] = 2\<close> on the result is a write to address 2 and changes \<open>B["x"]["y"]\<close>.
\<close>

theorem merge_dicts_overwrite_shares_source:
  "merge_dicts (=) 2 [[(''x'', Leaf (1::int))], [(''x'', Ref 2)], [(''y'', Leaf 1)]] 0 1 False []
     = Some (Inr 0, [[(''x'', Ref 2)], [(''x'', Ref 2)], [(''y'', Leaf 1)]])
   \<and> getitem [[(''x'', Ref 2)], [(''x'', Ref 2)], [(''y'', Leaf (1::int))]] 0 ''x'' = Some (Ref 2)
   \<and> getitem [[(''x'', Ref 2)], [(''x'', Ref 2)], [(''y'', Leaf (1::int))]] 1 ''x'' = Some (Ref 2)
   \<and> getitem (setitem [[(''x'', Ref 2)], [(''x'', Ref 2)], [(''y'', Leaf (1::int))]] 2 ''y'' (Leaf 2)) 2 ''y''
       = Some (Leaf 2)"
  by (simp add: merge_dicts_def getitem_def setitem_def numeral_2_eq_2 merge_keys.simps)

end
